theory Spec2Isabelle
  imports Main "HOL-Library.Word"
begin

section \<open>The data model of \<open>vec.h\<close>\<close>

text \<open>
  \<open>vec.h\<close> is a macro library: a vector of \<open>T\<close> is a plain \<open>T*\<close> that is either
  \<open>NULL\<close> or points just behind a \<open>vec__header_t\<close> at the start of one heap
  allocation. The embedding keeps the two levels apart:
  \<^item> the handle \<open>*(vec)\<close> is an optional address (\<open>None\<close> is \<open>NULL\<close>);
  \<^item> the heap maps an address to the allocation that lives there, so that a handle whose
    allocation has been freed is visibly dangling;
  \<^item> \<open>size_t\<close> is a machine word of \<open>LENGTH('w)\<close> bits: \<open>+\<close>, \<open>-\<close> and \<open>*\<close> wrap;
  \<^item> \<open>errno\<close> is part of the state;
  \<^item> \<open>VEC_PANIC\<close>, a failing \<open>VEC_ASSERT\<close> and undefined behaviour of the C machine are
    error results.
\<close>

type_synonym addr = nat

datatype undefined_behaviour = Null_dereference | Use_after_free | Double_free | Out_of_bounds

datatype error =
    Panic string
  | Assertion_failed string
  | Undefined undefined_behaviour

text \<open>
  \<open>typedef struct { size_t len; size_t cap; } vec__header_t;\<close> and, behind it, the
  element slots that the allocation really holds. A slot is \<open>None\<close> while it has never
  been written (\<open>malloc\<close> and \<open>realloc\<close> hand out indeterminate bytes).
\<close>

record (overloaded) 'w vec__header_t =
  len :: "'w word"
  cap :: "'w word"

record (overloaded) ('w, 'a) allocation = "'w vec__header_t" +
  slots :: "'a option list"

record (overloaded) ('w, 'a) state =
  handle :: "addr option"
  heap :: "addr \<Rightarrow> ('w, 'a) allocation option"
  errno :: int

definition ENOMEM :: int where
  "ENOMEM = 12"

text \<open>An element pointer \<open>*(vec) + i\<close>: the allocation and the slot index.\<close>

type_synonym ptr = "addr \<times> int"

text \<open>
  \<open>sizeof(vec__header_t)\<close>: two \<open>size_t\<close> fields of \<open>LENGTH('w) div 8\<close> bytes each.
\<close>

definition sizeof_vec__header_t :: "'w::len word" where
  "sizeof_vec__header_t = 2 * word_of_nat (LENGTH('w) div 8)"

text \<open>
  The number of \<open>T\<close> slots in an allocation of \<open>bytes\<close> bytes that starts with the header,
  for \<open>sizeof(T) = esz\<close>; and the slots of the allocation that \<open>malloc\<close> (\<open>old = []\<close>) or
  \<open>realloc\<close> returns: the old contents up to the smaller of the two sizes, the rest
  indeterminate.
\<close>

definition slots_in :: "'w::len word \<Rightarrow> 'w word \<Rightarrow> nat" where
  "slots_in esz bytes = (unat bytes - unat (sizeof_vec__header_t :: 'w word)) div unat esz"

definition resized :: "'w::len word \<Rightarrow> 'w word \<Rightarrow> 'a option list \<Rightarrow> 'a option list" where
  "resized esz bytes old =
     take (slots_in esz bytes) (old @ replicate (slots_in esz bytes - length old) None)"

section \<open>Storage representation\<close>

text \<open>\<open>#define vec_init(vec) *(vec) = NULL\<close>\<close>

definition vec_init :: "('w::len, 'a) state \<Rightarrow> ('w, 'a) state" where
  "vec_init s = s\<lparr>handle := None\<rparr>"

text \<open>\<open>#define vec__has_header(vec) (*(vec) != NULL)\<close>\<close>

definition vec__has_header :: "('w::len, 'a) state \<Rightarrow> bool" where
  "vec__has_header s \<longleftrightarrow> handle s \<noteq> None"

text \<open>
  \<open>#define vec__get_header(vec) (((vec__header_t*)*(vec)) - 1)\<close> computes the header's
  address from the handle; the address of an allocation stands for both here.
  \<open>header_at\<close> is the dereference \<open>vec__get_header(vec)->...\<close>: it needs a handle that is
  not \<open>NULL\<close> and an allocation that is still live.
\<close>

definition vec__get_header :: "('w::len, 'a) state \<Rightarrow> addr option" where
  "vec__get_header s = handle s"

definition header_at :: "('w::len, 'a) state \<Rightarrow> error + (addr \<times> ('w, 'a) allocation)" where
  "header_at s =
     (case vec__get_header s of
        None \<Rightarrow> Inl (Undefined Null_dereference)
      | Some a \<Rightarrow>
          (case heap s a of
             None \<Rightarrow> Inl (Undefined Use_after_free)
           | Some b \<Rightarrow> Inr (a, b)))"

text \<open>
  \<open>#define vec_len(vec) (vec__has_header(vec) ? vec__get_header(vec)->len : 0)\<close>
  \<open>#define vec_cap(vec) (vec__has_header(vec) ? vec__get_header(vec)->cap : 0)\<close>
\<close>

definition vec_len :: "('w::len, 'a) state \<Rightarrow> error + 'w word" where
  "vec_len s =
     (if vec__has_header s
      then (case header_at s of Inl e \<Rightarrow> Inl e | Inr (a, b) \<Rightarrow> Inr (len b))
      else Inr 0)"

definition vec_cap :: "('w::len, 'a) state \<Rightarrow> error + 'w word" where
  "vec_cap s =
     (if vec__has_header s
      then (case header_at s of Inl e \<Rightarrow> Inl e | Inr (a, b) \<Rightarrow> Inr (cap b))
      else Inr 0)"

text \<open>The subscript \<open>(*(vec))[i]\<close>, as a read and as a write.\<close>

definition load :: "nat \<Rightarrow> ('w::len, 'a) allocation \<Rightarrow> error + 'a option" where
  "load i b = (if i < length (slots b) then Inr (slots b ! i) else Inl (Undefined Out_of_bounds))"

definition store :: "nat \<Rightarrow> 'a option \<Rightarrow> ('w::len, 'a) allocation \<Rightarrow> error + ('w, 'a) allocation" where
  "store i v b =
     (if i < length (slots b) then Inr (b\<lparr>slots := (slots b)[i := v]\<rparr>)
      else Inl (Undefined Out_of_bounds))"

definition vec_at :: "('w::len, 'a) state \<Rightarrow> nat \<Rightarrow> error + 'a option" where
  "vec_at s i = (case header_at s of Inl e \<Rightarrow> Inl e | Inr (a, b) \<Rightarrow> load i b)"

text \<open>\<open>VEC_FREE(ptr)\<close> is \<open>free(ptr)\<close>: nothing for \<open>NULL\<close>, undefined for freed memory.\<close>

definition VEC_FREE :: "addr option \<Rightarrow> ('w::len, 'a) state \<Rightarrow> error + ('w, 'a) state" where
  "VEC_FREE p s =
     (case p of
        None \<Rightarrow> Inr s
      | Some a \<Rightarrow>
          (case heap s a of
             None \<Rightarrow> Inl (Undefined Double_free)
           | Some b \<Rightarrow> Inr (s\<lparr>heap := (heap s)(a := None)\<rparr>)))"

section \<open>Growth engine\<close>

text \<open>
  \<open>vec__grow_or_fail(vec, ...)\<close>. The variadic argument is the block run when the
  allocation primitive returns \<open>NULL\<close>; \<open>alloc\<close> is what \<open>VEC_MALLOC\<close> or \<open>VEC_REALLOC\<close>
  returns if this call reaches it, and \<open>esz\<close> is \<open>sizeof(**(vec))\<close>. The byte count is
  the source's expression in \<open>size_t\<close> arithmetic; an allocation too short for the header
  makes the header assignments undefined.
\<close>

definition vec__grow_or_fail ::
  "'w::len word \<Rightarrow> (('w, 'a) state \<Rightarrow> error + ('w, 'a) state) \<Rightarrow> addr option \<Rightarrow>
     ('w, 'a) state \<Rightarrow> error + ('w, 'a) state" where
  "vec__grow_or_fail esz fail_block alloc s =
     (if \<not> vec__has_header s then
        (let bytes = sizeof_vec__header_t + esz in
         case alloc of
           Some p \<Rightarrow>
             if bytes < sizeof_vec__header_t then Inl (Undefined Out_of_bounds)
             else Inr (s\<lparr>handle := Some p,
                         heap := (heap s)(p \<mapsto>
                           \<lparr>len = 1, cap = 1, slots = resized esz bytes []\<rparr>)\<rparr>)
         | None \<Rightarrow> fail_block s)
      else
        (case header_at s of
           Inl e \<Rightarrow> Inl e
         | Inr (a, b) \<Rightarrow>
             if len b < cap b then Inr (s\<lparr>heap := (heap s)(a \<mapsto> b\<lparr>len := len b + 1\<rparr>)\<rparr>)
             else
               (let new_cap = cap b * 2;
                    bytes = sizeof_vec__header_t + esz * new_cap in
                case alloc of
                  Some p \<Rightarrow>
                    if bytes < sizeof_vec__header_t then Inl (Undefined Out_of_bounds)
                    else Inr (s\<lparr>handle := Some p,
                                heap := ((heap s)(a := None))(p \<mapsto>
                                  \<lparr>len = len b + 1, cap = new_cap,
                                   slots = resized esz bytes (slots b)\<rparr>)\<rparr>)
                | None \<Rightarrow> fail_block s)))"

text \<open>\<open>vec__reserve_or_fail(vec, capacity, ...)\<close>, with the same parameters.\<close>

definition vec__reserve_or_fail ::
  "'w::len word \<Rightarrow> 'w word \<Rightarrow> (('w, 'a) state \<Rightarrow> error + ('w, 'a) state) \<Rightarrow> addr option \<Rightarrow>
     ('w, 'a) state \<Rightarrow> error + ('w, 'a) state" where
  "vec__reserve_or_fail esz capacity fail_block alloc s =
     (if capacity = 0 then Inr s
      else if \<not> vec__has_header s then
        (let bytes = sizeof_vec__header_t + esz * capacity in
         case alloc of
           Some p \<Rightarrow>
             if bytes < sizeof_vec__header_t then Inl (Undefined Out_of_bounds)
             else Inr (s\<lparr>handle := Some p,
                         heap := (heap s)(p \<mapsto>
                           \<lparr>len = 0, cap = capacity, slots = resized esz bytes []\<rparr>)\<rparr>)
         | None \<Rightarrow> fail_block s)
      else
        (case header_at s of
           Inl e \<Rightarrow> Inl e
         | Inr (a, b) \<Rightarrow>
             if capacity > cap b then
               (let bytes = sizeof_vec__header_t + esz * capacity in
                case alloc of
                  Some p \<Rightarrow>
                    if bytes < sizeof_vec__header_t then Inl (Undefined Out_of_bounds)
                    else Inr (s\<lparr>handle := Some p,
                                heap := ((heap s)(a := None))(p \<mapsto>
                                  \<lparr>len = len b, cap = capacity,
                                   slots = resized esz bytes (slots b)\<rparr>)\<rparr>)
                | None \<Rightarrow> fail_block s)
             else Inr s))"

text \<open>
  The two failure blocks: \<open>{ VEC_PANIC("..."); }\<close> prints the reason and exits,
  \<open>{ errno = ENOMEM; }\<close> sets the indicator and carries on.
\<close>

definition VEC_PANIC :: "string \<Rightarrow> ('w::len, 'a) state \<Rightarrow> error + ('w, 'a) state" where
  "VEC_PANIC reason s = Inl (Panic reason)"

definition set_ENOMEM :: "('w::len, 'a) state \<Rightarrow> error + ('w, 'a) state" where
  "set_ENOMEM s = Inr (s\<lparr>errno := ENOMEM\<rparr>)"

definition vec_reserve ::
  "'w::len word \<Rightarrow> 'w word \<Rightarrow> addr option \<Rightarrow> ('w, 'a) state \<Rightarrow> error + ('w, 'a) state" where
  "vec_reserve esz capacity alloc s =
     vec__reserve_or_fail esz capacity (VEC_PANIC ''vec_reserve out of memory'') alloc s"

definition vec_try_reserve ::
  "'w::len word \<Rightarrow> 'w word \<Rightarrow> addr option \<Rightarrow> ('w, 'a) state \<Rightarrow> error + ('w, 'a) state" where
  "vec_try_reserve esz capacity alloc s =
     vec__reserve_or_fail esz capacity set_ENOMEM alloc s"

section \<open>Mutation operations\<close>

text \<open>
  \<open>#define vec_deinit(vec) VEC_FREE(vec__has_header(vec) ? vec__get_header(vec) : NULL)\<close>
  The macro passes the header's address to \<open>VEC_FREE\<close> and assigns nothing to \<open>*(vec)\<close>.
\<close>

definition vec_deinit :: "('w::len, 'a) state \<Rightarrow> error + ('w, 'a) state" where
  "vec_deinit s = VEC_FREE (if vec__has_header s then vec__get_header s else None) s"

text \<open>
  The loop \<open>for (size_t _vec_i=0; _vec_i<_vec_header->len; _vec_i++) (deinit_fn)(*(vec) + _vec_i);\<close>
  of \<open>vec_deinit_with\<close> and \<open>vec_clear_with\<close>. The callback is the caller's code; the
  model records the element pointers it is called with, in call order.
\<close>

function deinit_loop :: "addr \<Rightarrow> 'w::len word \<Rightarrow> 'w word \<Rightarrow> ptr list" where
  "deinit_loop a i n = (if i < n then (a, int (unat i)) # deinit_loop a (i + 1) n else [])"
  by pat_completeness auto
termination
proof (relation "measure (\<lambda>(a, i, n). unat n - unat i)")
  show "wf (measure (\<lambda>(a, i, n). unat n - unat i))" by simp
next
  fix a :: addr and i n :: "'w::len word"
  assume "i < n"
  then have less: "unat i < unat n"
    by (simp add: word_less_nat_alt)
  moreover have "unat n < 2 ^ LENGTH('w)"
    by (rule unsigned_less)
  ultimately have "Suc (unat i) < 2 ^ LENGTH('w)"
    by linarith
  then have "unat (i + 1) = Suc (unat i)"
    by (simp add: unat_word_ariths)
  with less show "((a, i + 1, n), (a, i, n)) \<in> measure (\<lambda>(a, i, n). unat n - unat i)"
    by simp
qed

declare deinit_loop.simps [simp del]

text \<open>
  \<open>vec_deinit_with(vec, deinit_fn)\<close>: the result is the state and the pointers handed to
  \<open>deinit_fn\<close>. Like \<open>vec_deinit\<close> it assigns nothing to \<open>*(vec)\<close>.
\<close>

definition vec_deinit_with :: "('w::len, 'a) state \<Rightarrow> error + (('w, 'a) state \<times> ptr list)" where
  "vec_deinit_with s =
     (if vec__has_header s then
        (case header_at s of
           Inl e \<Rightarrow> Inl e
         | Inr (a, b) \<Rightarrow>
             (case VEC_FREE (vec__get_header s) s of
                Inl e \<Rightarrow> Inl e
              | Inr s' \<Rightarrow> Inr (s', deinit_loop a 0 (len b))))
      else Inr (s, []))"

text \<open>
  The assignment \<open>(*(vec))[vec__get_header(vec)->len - 1] = (value)\<close> and the pointer
  \<open>*(vec) + vec__get_header(vec)->len - 1\<close> that follow a growth step.
\<close>

definition write_last :: "'a \<Rightarrow> ('w::len, 'a) state \<Rightarrow> error + ('w, 'a) state" where
  "write_last v s =
     (case header_at s of
        Inl e \<Rightarrow> Inl e
      | Inr (a, b) \<Rightarrow>
          (case store (unat (len b - 1)) (Some v) b of
             Inl e \<Rightarrow> Inl e
           | Inr b' \<Rightarrow> Inr (s\<lparr>heap := (heap s)(a \<mapsto> b')\<rparr>)))"

definition last_slot :: "('w::len, 'a) state \<Rightarrow> error + ptr" where
  "last_slot s =
     (case header_at s of
        Inl e \<Rightarrow> Inl e
      | Inr (a, b) \<Rightarrow> Inr (a, int (unat (len b)) - 1))"

text \<open>\<open>vec_push(vec, value)\<close>: grow or panic, then write.\<close>

definition vec_push ::
  "'w::len word \<Rightarrow> 'a \<Rightarrow> addr option \<Rightarrow> ('w, 'a) state \<Rightarrow> error + ('w, 'a) state" where
  "vec_push esz v alloc s =
     (case vec__grow_or_fail esz (VEC_PANIC ''vec_push out of memory'') alloc s of
        Inl e \<Rightarrow> Inl e
      | Inr s1 \<Rightarrow> write_last v s1)"

text \<open>
  \<open>vec_try_push(vec, value)\<close>: grow or set \<open>errno\<close>, then write \<open>if (errno != ENOMEM)\<close>.
  The macro does not assign \<open>errno\<close> before the growth step.
\<close>

definition vec_try_push ::
  "'w::len word \<Rightarrow> 'a \<Rightarrow> addr option \<Rightarrow> ('w, 'a) state \<Rightarrow> error + ('w, 'a) state" where
  "vec_try_push esz v alloc s =
     (case vec__grow_or_fail esz set_ENOMEM alloc s of
        Inl e \<Rightarrow> Inl e
      | Inr s1 \<Rightarrow> if errno s1 \<noteq> ENOMEM then write_last v s1 else Inr s1)"

text \<open>\<open>vec_emplace(vec)\<close>: grow or panic, then yield the pointer to the last slot.\<close>

definition vec_emplace ::
  "'w::len word \<Rightarrow> addr option \<Rightarrow> ('w, 'a) state \<Rightarrow> error + (('w, 'a) state \<times> ptr)" where
  "vec_emplace esz alloc s =
     (case vec__grow_or_fail esz (VEC_PANIC ''vec_emplace out of memory'') alloc s of
        Inl e \<Rightarrow> Inl e
      | Inr s1 \<Rightarrow> (case last_slot s1 of Inl e \<Rightarrow> Inl e | Inr p \<Rightarrow> Inr (s1, p)))"

text \<open>
  \<open>vec_try_emplace(vec)\<close>. The last line of the macro reads
  \<open>(errno != ENOMEM : (*(vec) + vec__get_header(vec)->len - 1) : NULL);\<close>
  with \<open>:\<close> where the conditional operator needs \<open>?\<close>, so an expansion of the macro is
  not C. The model reads the line as the conditional expression it spells out but for
  that character: the pointer when \<open>errno != ENOMEM\<close>, \<open>NULL\<close> otherwise.
\<close>

definition vec_try_emplace ::
  "'w::len word \<Rightarrow> addr option \<Rightarrow> ('w, 'a) state \<Rightarrow> error + (('w, 'a) state \<times> ptr option)" where
  "vec_try_emplace esz alloc s =
     (case vec__grow_or_fail esz set_ENOMEM alloc s of
        Inl e \<Rightarrow> Inl e
      | Inr s1 \<Rightarrow>
          if errno s1 \<noteq> ENOMEM
          then (case last_slot s1 of Inl e \<Rightarrow> Inl e | Inr p \<Rightarrow> Inr (s1, Some p))
          else Inr (s1, None))"

text \<open>
  \<open>VEC_ASSERT(condition, reason)\<close> is \<open>assert((reason) && (condition))\<close>; the condition
  may itself read the header.
\<close>

definition VEC_ASSERT :: "error + bool \<Rightarrow> string \<Rightarrow> error + unit" where
  "VEC_ASSERT condition reason =
     (case condition of
        Inl e \<Rightarrow> Inl e
      | Inr c \<Rightarrow> if c then Inr () else Inl (Assertion_failed reason))"

definition map_result :: "('x \<Rightarrow> 'y) \<Rightarrow> error + 'x \<Rightarrow> error + 'y" where
  "map_result f r = (case r of Inl e \<Rightarrow> Inl e | Inr x \<Rightarrow> Inr (f x))"

text \<open>\<open>vec_pop(vec)\<close>\<close>

definition vec_pop :: "('w::len, 'a) state \<Rightarrow> error + ('w, 'a) state" where
  "vec_pop s =
     (case VEC_ASSERT (map_result (\<lambda>l. l > 0) (vec_len s)) ''vec_pop empty'' of
        Inl e \<Rightarrow> Inl e
      | Inr _ \<Rightarrow>
          (case header_at s of
             Inl e \<Rightarrow> Inl e
           | Inr (a, b) \<Rightarrow> Inr (s\<lparr>heap := (heap s)(a \<mapsto> b\<lparr>len := len b - 1\<rparr>)\<rparr>)))"

text \<open>\<open>vec_clear(vec)\<close>\<close>

definition vec_clear :: "('w::len, 'a) state \<Rightarrow> error + ('w, 'a) state" where
  "vec_clear s =
     (if vec__has_header s then
        (case header_at s of
           Inl e \<Rightarrow> Inl e
         | Inr (a, b) \<Rightarrow> Inr (s\<lparr>heap := (heap s)(a \<mapsto> b\<lparr>len := 0\<rparr>)\<rparr>))
      else Inr s)"

section \<open>Removal\<close>

text \<open>
  \<open>vec_remove_swap_at(vec, index)\<close>: after the assertion, \<open>_vec_header->len -= 1;\<close> and
  \<open>(*(vec))[_vec_index] = (*(vec))[_vec_header->len];\<close>
\<close>

definition vec_remove_swap_at :: "'w::len word \<Rightarrow> ('w, 'a) state \<Rightarrow> error + ('w, 'a) state" where
  "vec_remove_swap_at index s =
     (case VEC_ASSERT (map_result (\<lambda>l. index < l) (vec_len s))
             ''vec_remove_swap_at out of bounds'' of
        Inl e \<Rightarrow> Inl e
      | Inr _ \<Rightarrow>
          (case header_at s of
             Inl e \<Rightarrow> Inl e
           | Inr (a, b) \<Rightarrow>
               (let b1 = b\<lparr>len := len b - 1\<rparr> in
                case load (unat (len b1)) b1 of
                  Inl e \<Rightarrow> Inl e
                | Inr x \<Rightarrow>
                    (case store (unat index) x b1 of
                       Inl e \<Rightarrow> Inl e
                     | Inr b2 \<Rightarrow> Inr (s\<lparr>heap := (heap s)(a \<mapsto> b2)\<rparr>)))))"

text \<open>
  The loop of \<open>vec_remove_shift_at\<close>:
  \<open>for (size_t _vec_i=_vec_index; _vec_i<_vec_header->len; _vec_i++)
      (*(vec))[_vec_i] = (*(vec))[_vec_i+1];\<close>
\<close>

function shift_loop ::
  "'w::len word \<Rightarrow> ('w, 'a) allocation \<Rightarrow> error + ('w, 'a) allocation" where
  "shift_loop i b =
     (if i < len b then
        (case load (unat (i + 1)) b of
           Inl e \<Rightarrow> Inl e
         | Inr x \<Rightarrow>
             (case store (unat i) x b of
                Inl e \<Rightarrow> Inl e
              | Inr b' \<Rightarrow> shift_loop (i + 1) b'))
      else Inr b)"
  by pat_completeness auto
termination
  apply (relation "measure (\<lambda>(i, b). unat (len b) - unat i)")
   apply simp
  subgoal premises prems for i b x b'
  proof -
    from prems have less: "unat i < unat (len b)"
      by (simp add: word_less_nat_alt)
    moreover have "unat (len b) < 2 ^ LENGTH('a)"
      by (rule unsigned_less)
    ultimately have "Suc (unat i) < 2 ^ LENGTH('a)"
      by linarith
    then have "unat (i + 1) = Suc (unat i)"
      by (simp add: unat_word_ariths)
    moreover from prems have "len b' = len b"
      by (auto simp: store_def split: if_splits)
    ultimately show ?thesis
      using less by simp
  qed
  done

declare shift_loop.simps [simp del]

text \<open>\<open>vec_remove_shift_at(vec, index)\<close>\<close>

definition vec_remove_shift_at :: "'w::len word \<Rightarrow> ('w, 'a) state \<Rightarrow> error + ('w, 'a) state" where
  "vec_remove_shift_at index s =
     (case VEC_ASSERT (map_result (\<lambda>l. index < l) (vec_len s))
             ''vec_remove_shift_at out of bounds'' of
        Inl e \<Rightarrow> Inl e
      | Inr _ \<Rightarrow>
          (case header_at s of
             Inl e \<Rightarrow> Inl e
           | Inr (a, b) \<Rightarrow>
               (case shift_loop index (b\<lparr>len := len b - 1\<rparr>) of
                  Inl e \<Rightarrow> Inl e
                | Inr b' \<Rightarrow> Inr (s\<lparr>heap := (heap s)(a \<mapsto> b')\<rparr>))))"

section \<open>Sequences of calls\<close>

text \<open>
  A call of one public macro, with its arguments and with the answer of the allocation
  primitive for the calls that may reach it. \<open>call\<close> runs one call and keeps the state
  (a pointer yielded by an emplace is dropped); \<open>run\<close> runs a sequence and stops at the
  first call that does not return; \<open>states_after\<close> lists the state after every call that
  returned.
\<close>

datatype ('size_t, 'a) op =
    VEC_INIT
  | VEC_PUSH 'a "addr option"
  | VEC_TRY_PUSH 'a "addr option"
  | VEC_EMPLACE "addr option"
  | VEC_TRY_EMPLACE "addr option"
  | VEC_RESERVE 'size_t "addr option"
  | VEC_TRY_RESERVE 'size_t "addr option"
  | VEC_POP
  | VEC_CLEAR
  | VEC_REMOVE_SWAP_AT 'size_t
  | VEC_REMOVE_SHIFT_AT 'size_t
  | VEC_DEINIT

fun call :: "'w::len word \<Rightarrow> ('w word, 'a) op \<Rightarrow> ('w, 'a) state \<Rightarrow> error + ('w, 'a) state" where
  "call esz VEC_INIT s = Inr (vec_init s)"
| "call esz (VEC_PUSH v alloc) s = vec_push esz v alloc s"
| "call esz (VEC_TRY_PUSH v alloc) s = vec_try_push esz v alloc s"
| "call esz (VEC_EMPLACE alloc) s = map_result fst (vec_emplace esz alloc s)"
| "call esz (VEC_TRY_EMPLACE alloc) s = map_result fst (vec_try_emplace esz alloc s)"
| "call esz (VEC_RESERVE capacity alloc) s = vec_reserve esz capacity alloc s"
| "call esz (VEC_TRY_RESERVE capacity alloc) s = vec_try_reserve esz capacity alloc s"
| "call esz VEC_POP s = vec_pop s"
| "call esz VEC_CLEAR s = vec_clear s"
| "call esz (VEC_REMOVE_SWAP_AT index) s = vec_remove_swap_at index s"
| "call esz (VEC_REMOVE_SHIFT_AT index) s = vec_remove_shift_at index s"
| "call esz VEC_DEINIT s = vec_deinit s"

fun run :: "'w::len word \<Rightarrow> ('w word, 'a) op list \<Rightarrow> ('w, 'a) state \<Rightarrow> error + ('w, 'a) state" where
  "run esz [] s = Inr s"
| "run esz (c # cs) s = (case call esz c s of Inl e \<Rightarrow> Inl e | Inr s' \<Rightarrow> run esz cs s')"

fun states_after :: "'w::len word \<Rightarrow> ('w word, 'a) op list \<Rightarrow> ('w, 'a) state \<Rightarrow> ('w, 'a) state list" where
  "states_after esz [] s = []"
| "states_after esz (c # cs) s =
     (case call esz c s of Inl e \<Rightarrow> [] | Inr s' \<Rightarrow> s' # states_after esz cs s')"

section \<open>Observations and the invariant\<close>

text \<open>
  The live elements \<open>(*(vec))[0] .. (*(vec))[vec_len(vec) - 1]\<close> of a state whose handle
  is \<open>NULL\<close> or points to a live allocation.
\<close>

definition elements :: "('w::len, 'a) state \<Rightarrow> 'a option list" where
  "elements s =
     (case header_at s of
        Inl e \<Rightarrow> []
      | Inr (a, b) \<Rightarrow> take (unat (len b)) (slots b))"

text \<open>
  The invariant of the data model, read through the public getters: both are readable,
  \<open>length \<le> capacity\<close>, and the capacity is 0 exactly for the \<open>NULL\<close> handle.
\<close>

definition vec_invariant :: "('w::len, 'a) state \<Rightarrow> bool" where
  "vec_invariant s =
     (case (vec_len s, vec_cap s) of
        (Inr l, Inr c) \<Rightarrow> l \<le> c \<and> (c = 0 \<longleftrightarrow> handle s = None)
      | _ \<Rightarrow> False)"

text \<open>
  The calls that append (they expand \<open>vec__grow_or_fail\<close>), and the states in which the
  growth step takes the reallocating branch with a product \<open>cap * 2\<close> that does not fit
  \<open>size_t\<close>. \<open>no_doubling_overflow\<close> says that no call of a sequence appends in such a
  state.
\<close>

fun is_append :: "('s, 'a) op \<Rightarrow> bool" where
  "is_append (VEC_PUSH v alloc) = True"
| "is_append (VEC_TRY_PUSH v alloc) = True"
| "is_append (VEC_EMPLACE alloc) = True"
| "is_append (VEC_TRY_EMPLACE alloc) = True"
| "is_append c = False"

definition doubling_overflows :: "('w::len, 'a) state \<Rightarrow> bool" where
  "doubling_overflows s =
     (case header_at s of
        Inl e \<Rightarrow> False
      | Inr (a, b) \<Rightarrow> \<not> len b < cap b \<and> 2 ^ LENGTH('w) \<le> 2 * unat (cap b))"

fun no_doubling_overflow ::
  "'w::len word \<Rightarrow> ('w word, 'a) op list \<Rightarrow> ('w, 'a) state \<Rightarrow> bool" where
  "no_doubling_overflow esz [] s = True"
| "no_doubling_overflow esz (c # cs) s =
     (\<not> (is_append c \<and> doubling_overflows s) \<and>
      (case call esz c s of Inl e \<Rightarrow> True | Inr s' \<Rightarrow> no_doubling_overflow esz cs s'))"

section \<open>Example states\<close>

text \<open>
  A freshly initialised vector of \<open>int\<close> on a 64-bit machine and the vector
  \<open>[10,20,30,40]\<close> with capacity 4.
\<close>

definition fresh_vec :: "(64, int) state" where
  "fresh_vec = \<lparr>handle = None, heap = Map.empty, errno = 0\<rparr>"

definition example_block :: "(64, int) allocation" where
  "example_block = \<lparr>len = 4, cap = 4, slots = [Some 10, Some 20, Some 30, Some 40]\<rparr>"

definition example_vec :: "(64, int) state" where
  "example_vec = \<lparr>handle = Some 1, heap = [1 \<mapsto> example_block], errno = 0\<rparr>"

text \<open>
  The states met while 7, 8 and 9 are pushed onto the fresh vector, the allocator answering
  with the addresses 1, 2 and 3; \<open>one_grown\<close>, \<open>three_grown\<close> and \<open>four_grown\<close> are the
  states between the growth step and the write.
\<close>

definition two_pushed :: "(64, int) state" where
  "two_pushed = \<lparr>handle = Some 2,
     heap = [2 \<mapsto> \<lparr>len = 2, cap = 2, slots = [Some 7, Some 8]\<rparr>], errno = 0\<rparr>"

definition three_pushed :: "(64, int) state" where
  "three_pushed = \<lparr>handle = Some 3,
     heap = [3 \<mapsto> \<lparr>len = 3, cap = 4, slots = [Some 7, Some 8, Some 9, None]\<rparr>], errno = 0\<rparr>"

definition one_grown :: "(64, int) state" where
  "one_grown = \<lparr>handle = Some 1,
     heap = [1 \<mapsto> \<lparr>len = 1, cap = 1, slots = [None]\<rparr>], errno = 0\<rparr>"

definition three_grown :: "(64, int) state" where
  "three_grown = \<lparr>handle = Some 3,
     heap = [3 \<mapsto> \<lparr>len = 3, cap = 2 * 2, slots = [Some 7, Some 8, None, None]\<rparr>], errno = 0\<rparr>"

definition four_grown :: "(64, int) state" where
  "four_grown = \<lparr>handle = Some 3,
     heap = [3 \<mapsto> \<lparr>len = 4, cap = 4, slots = [Some 7, Some 8, Some 9, None]\<rparr>], errno = 0\<rparr>"

text \<open>
  The fresh vector after \<open>vec_reserve(vec, 8)\<close>, and \<open>[10,20,30,40]\<close> after
  \<open>vec_reserve(vec, 9)\<close>.
\<close>

definition reserved_8 :: "(64, int) state" where
  "reserved_8 = \<lparr>handle = Some 1,
     heap = [1 \<mapsto> \<lparr>len = 0, cap = 8, slots = replicate 8 None\<rparr>], errno = 0\<rparr>"

definition regrown_9 :: "(64, int) state" where
  "regrown_9 = \<lparr>handle = Some 2,
     heap = [2 \<mapsto> \<lparr>len = 4, cap = 9,
                   slots = [Some 10, Some 20, Some 30, Some 40] @ replicate 5 None\<rparr>],
     errno = 0\<rparr>"

text \<open>
  A sequence of calls without \<open>vec_deinit\<close>; the state that \<open>vec_deinit\<close> leaves behind
  when the allocation lived at address 1.
\<close>

definition example_calls :: "(64 word, int) op list" where
  "example_calls =
     [VEC_PUSH 7 (Some 1), VEC_TRY_PUSH 8 (Some 2), VEC_EMPLACE (Some 3),
      VEC_RESERVE 16 (Some 4), VEC_POP, VEC_REMOVE_SWAP_AT 0, VEC_TRY_RESERVE 32 None,
      VEC_TRY_EMPLACE None, VEC_REMOVE_SHIFT_AT 1, VEC_CLEAR]"

definition released :: "(64, int) state" where
  "released = \<lparr>handle = Some 1, heap = Map.empty, errno = 0\<rparr>"

text \<open>
  A vector of bytes on a 32-bit machine: fresh, and after a growth step has doubled the
  capacity \<open>2 ^ 31\<close>. An allocation of \<open>int\<close> that is full at half the range of a 64-bit
  \<open>size_t\<close>.
\<close>

definition fresh_bytes :: "(32, 8 word) state" where
  "fresh_bytes = \<lparr>handle = None, heap = Map.empty, errno = 0\<rparr>"

definition wrapped :: "(32, 8 word) state" where
  "wrapped = \<lparr>handle = Some 2, heap = [2 \<mapsto> \<lparr>len = 2 ^ 31 + 1, cap = 0, slots = []\<rparr>],
     errno = 0\<rparr>"

definition full_at_half_range :: "(64, int) allocation" where
  "full_at_half_range = \<lparr>len = 2 ^ 63, cap = 2 ^ 63, slots = replicate (2 ^ 63) (Some 0)\<rparr>"

section \<open>Auxiliary facts\<close>

text \<open>
  What a run of \<open>vec_push\<close> calls from the empty vector has built after the values \<open>vs\<close>:
  they are the live elements, they lie inside the allocation, and the capacity is the
  least power of two that holds them.
\<close>

definition pushed :: "('w::len, 'a) state \<Rightarrow> 'a list \<Rightarrow> bool" where
  "pushed s vs \<longleftrightarrow>
     (vs = [] \<and> handle s = None) \<or>
     (\<exists>a b k. handle s = Some a \<and> heap s a = Some b \<and>
        unat (len b) = length vs \<and> length vs \<le> length (slots b) \<and>
        length (slots b) \<le> unat (cap b) \<and> take (length vs) (slots b) = map Some vs \<and>
        unat (cap b) = 2 ^ k \<and> length vs \<le> 2 ^ k \<and> 2 ^ k < 2 * length vs)"

subsection \<open>Machine words\<close>

lemma unat_succ_less:
  fixes i n :: "'w::len word"
  assumes "i < n"
  shows "unat (i + 1) = Suc (unat i)"
proof -
  have "unat i < unat n" using assms by (simp add: word_less_nat_alt)
  moreover have "unat n < 2 ^ LENGTH('w)" by (rule unsigned_less)
  ultimately have "Suc (unat i) < 2 ^ LENGTH('w)" by linarith
  then show ?thesis by (simp add: unat_word_ariths)
qed

lemma unat_double:
  fixes c :: "'w::len word"
  shows "unat (c * 2) = (2 * unat c) mod 2 ^ LENGTH('w)"
  by (simp add: unat_word_ariths mult.commute)

lemma double_wraps_less:
  fixes c :: "'w::len word"
  assumes "2 ^ (LENGTH('w) - 1) \<le> unat c"
  shows "c * 2 < c"
proof -
  define m :: nat where "m = 2 ^ LENGTH('w)"
  define h :: nat where "h = 2 ^ (LENGTH('w) - 1)"
  have lt: "unat c < m" unfolding m_def by (rule unsigned_less)
  have "m = 2 * h"
    unfolding m_def h_def by (cases "LENGTH('w)") simp_all
  with assms have ge: "m \<le> 2 * unat c" unfolding h_def by linarith
  have "(2 * unat c) mod m = (2 * unat c - m) mod m"
    using ge by (rule le_mod_geq)
  also have "\<dots> = 2 * unat c - m"
    using lt by (intro mod_less) linarith
  finally have "(2 * unat c) mod m < unat c" using lt ge by linarith
  then show ?thesis unfolding m_def by (simp only: word_less_nat_alt unat_double)
qed

lemma double_no_wrap:
  fixes c :: "'w::len word"
  assumes "unat c < unat (c * 2)"
  shows "unat (c * 2) = 2 * unat c"
proof (rule ccontr)
  assume neq: "unat (c * 2) \<noteq> 2 * unat c"
  have lt: "unat c < 2 ^ LENGTH('w)" by (rule unsigned_less)
  have "\<not> 2 * unat c < 2 ^ LENGTH('w)"
    using neq by (auto simp: unat_double)
  then have ge: "2 ^ LENGTH('w) \<le> 2 * unat c" by simp
  have "(2 * unat c) mod 2 ^ LENGTH('w) = (2 * unat c - 2 ^ LENGTH('w)) mod 2 ^ LENGTH('w)"
    using ge by (rule le_mod_geq)
  also have "\<dots> = 2 * unat c - 2 ^ LENGTH('w)"
    using lt by (intro mod_less) linarith
  finally have "(2 * unat c) mod 2 ^ LENGTH('w) < unat c" using lt ge by linarith
  then have "unat (c * 2) < unat c" by (simp only: unat_double)
  with assms show False by simp
qed

lemma unat_pred_less:
  fixes i l :: "'w::len word"
  assumes "i < l"
  shows "unat (l - 1) = unat l - 1" and "unat i \<le> unat (l - 1)" and "l - 1 < l"
proof -
  from assms have "l \<noteq> 0" by auto
  then show 1: "unat (l - 1) = unat l - 1" by (simp add: unat_minus_one)
  from assms have "unat i < unat l" by (simp add: word_less_nat_alt)
  with 1 show "unat i \<le> unat (l - 1)" by simp
  from \<open>unat i < unat l\<close> 1 show "l - 1 < l" by (simp add: word_less_nat_alt)
qed

lemma doubled_holds_next:
  fixes c :: "'w::len word"
  assumes "c \<noteq> 0" and "2 * unat c < 2 ^ LENGTH('w)"
  shows "c + 1 \<le> c * 2" and "c * 2 \<noteq> 0"
proof -
  from assms(2) have dbl: "unat (c * 2) = 2 * unat c"
    by (simp add: unat_double)
  from assms(1) have pos: "0 < unat c"
    by (simp add: unat_gt_0)
  with dbl have "c < c * 2"
    by (simp add: word_less_nat_alt)
  then show "c + 1 \<le> c * 2"
    by (rule inc_le)
  from dbl pos have "unat (c * 2) \<noteq> 0" by simp
  then show "c * 2 \<noteq> 0"
    by (simp add: unat_eq_0)
qed

subsection \<open>Reading the header\<close>

lemma header_at_live:
  "handle s = Some a \<Longrightarrow> heap s a = Some b \<Longrightarrow> header_at s = Inr (a, b)"
  by (simp add: header_at_def vec__get_header_def)

lemma vec_len_eq:
  "vec_len s =
     (case handle s of
        None \<Rightarrow> Inr 0
      | Some a \<Rightarrow> (case heap s a of None \<Rightarrow> Inl (Undefined Use_after_free) | Some b \<Rightarrow> Inr (len b)))"
  by (simp add: vec_len_def vec__has_header_def header_at_def vec__get_header_def
      split: option.splits)

lemma vec_cap_eq:
  "vec_cap s =
     (case handle s of
        None \<Rightarrow> Inr 0
      | Some a \<Rightarrow> (case heap s a of None \<Rightarrow> Inl (Undefined Use_after_free) | Some b \<Rightarrow> Inr (cap b)))"
  by (simp add: vec_cap_def vec__has_header_def header_at_def vec__get_header_def
      split: option.splits)

lemma elements_eq:
  "elements s =
     (case handle s of
        None \<Rightarrow> []
      | Some a \<Rightarrow> (case heap s a of None \<Rightarrow> [] | Some b \<Rightarrow> take (unat (len b)) (slots b)))"
  by (simp add: elements_def header_at_def vec__get_header_def split: option.splits)

lemma vec_cap_live:
  "handle s = Some a \<Longrightarrow> heap s a = Some b \<Longrightarrow> vec_cap s = Inr (cap b)"
  by (simp add: vec_cap_def vec__has_header_def header_at_live)

lemma vec_len_live:
  "handle s = Some a \<Longrightarrow> heap s a = Some b \<Longrightarrow> vec_len s = Inr (len b)"
  by (simp add: vec_len_def vec__has_header_def header_at_live)

lemma vec_len_null: "handle s = None \<Longrightarrow> vec_len s = Inr 0"
  by (simp add: vec_len_def vec__has_header_def)

lemma vec_cap_null: "handle s = None \<Longrightarrow> vec_cap s = Inr 0"
  by (simp add: vec_cap_def vec__has_header_def)

lemma vec_at_live:
  "handle s = Some a \<Longrightarrow> heap s a = Some b \<Longrightarrow> vec_at s i = load i b"
  by (simp add: vec_at_def header_at_live)

lemma assert_index:
  "handle s = Some a \<Longrightarrow> heap s a = Some b \<Longrightarrow>
   VEC_ASSERT (map_result (\<lambda>l. index < l) (vec_len s)) reason =
     (if index < len b then Inr () else Inl (Assertion_failed reason))"
  by (simp add: VEC_ASSERT_def map_result_def vec_len_live)

lemma assert_len:
  "VEC_ASSERT (map_result P (vec_len s)) reason = Inr u \<Longrightarrow> \<exists>l. vec_len s = Inr l \<and> P l"
  by (auto simp: VEC_ASSERT_def map_result_def split: sum.splits if_splits)

lemma store_header: "store i x b = Inr b' \<Longrightarrow> len b' = len b \<and> cap b' = cap b"
  by (auto simp: store_def split: if_splits)

subsection \<open>Sizes of allocations\<close>

lemma length_resized: "length (resized esz bytes old) = slots_in esz bytes"
  by (simp add: resized_def)

lemma take_resized:
  "n \<le> length old \<Longrightarrow> n \<le> slots_in esz bytes \<Longrightarrow> take n (resized esz bytes old) = take n old"
  by (simp add: resized_def min_absorb2)

lemma nth_resized:
  "i < length old \<Longrightarrow> i < slots_in esz bytes \<Longrightarrow> resized esz bytes old ! i = old ! i"
  by (simp add: resized_def nth_append)

lemma slots_in_bound:
  fixes esz x :: "'w::len word"
  assumes "\<not> sizeof_vec__header_t + x < (sizeof_vec__header_t :: 'w word)"
  shows "slots_in esz (sizeof_vec__header_t + x) = unat x div unat esz"
proof -
  from assms have "(sizeof_vec__header_t :: 'w word) \<le> sizeof_vec__header_t + x"
    by simp
  then have "unat (sizeof_vec__header_t + x) = unat (sizeof_vec__header_t :: 'w word) + unat x"
    by (simp add: unat_plus_simple)
  then show ?thesis
    by (simp add: slots_in_def)
qed

lemma slots_in_le_cap:
  fixes esz c :: "'w::len word"
  assumes "\<not> sizeof_vec__header_t + esz * c < (sizeof_vec__header_t :: 'w word)"
  shows "slots_in esz (sizeof_vec__header_t + esz * c) \<le> unat c"
proof (cases "unat esz = 0")
  case True
  then show ?thesis by (simp add: slots_in_bound [OF assms])
next
  case False
  have "unat (esz * c) \<le> unat esz * unat c"
    by (simp add: unat_word_ariths)
  then have "unat (esz * c) div unat esz \<le> (unat esz * unat c) div unat esz"
    by (rule div_le_mono)
  also have "\<dots> = unat c" using False by simp
  finally show ?thesis by (simp add: slots_in_bound [OF assms])
qed

lemma slots_in_le_one:
  fixes esz :: "'w::len word"
  assumes "\<not> sizeof_vec__header_t + esz < (sizeof_vec__header_t :: 'w word)"
  shows "slots_in esz (sizeof_vec__header_t + esz) \<le> 1"
  by (cases "unat esz = 0") (simp_all add: slots_in_bound [OF assms])

lemma replicate_numeral: "replicate (numeral k) x = x # replicate (pred_numeral k) x"
  by (simp add: numeral_eq_Suc)

subsection \<open>The branches of the growth engine\<close>

lemma grow_null:
  "handle s = None \<Longrightarrow>
   vec__grow_or_fail esz fail_block alloc s =
     (case alloc of
        Some p \<Rightarrow>
          if sizeof_vec__header_t + esz < sizeof_vec__header_t then Inl (Undefined Out_of_bounds)
          else Inr (s\<lparr>handle := Some p,
                      heap := (heap s)(p \<mapsto>
                        \<lparr>len = 1, cap = 1, slots = resized esz (sizeof_vec__header_t + esz) []\<rparr>)\<rparr>)
      | None \<Rightarrow> fail_block s)"
  by (simp add: vec__grow_or_fail_def vec__has_header_def Let_def)

lemma grow_room:
  "handle s = Some a \<Longrightarrow> heap s a = Some b \<Longrightarrow> len b < cap b \<Longrightarrow>
   vec__grow_or_fail esz fail_block alloc s =
     Inr (s\<lparr>heap := (heap s)(a \<mapsto> b\<lparr>len := len b + 1\<rparr>)\<rparr>)"
  by (simp add: vec__grow_or_fail_def vec__has_header_def header_at_live)

lemma grow_full:
  "handle s = Some a \<Longrightarrow> heap s a = Some b \<Longrightarrow> \<not> len b < cap b \<Longrightarrow>
   vec__grow_or_fail esz fail_block alloc s =
     (case alloc of
        Some p \<Rightarrow>
          if sizeof_vec__header_t + esz * (cap b * 2) < sizeof_vec__header_t
          then Inl (Undefined Out_of_bounds)
          else Inr (s\<lparr>handle := Some p,
                      heap := ((heap s)(a := None))(p \<mapsto>
                        \<lparr>len = len b + 1, cap = cap b * 2,
                         slots = resized esz (sizeof_vec__header_t + esz * (cap b * 2)) (slots b)\<rparr>)\<rparr>)
      | None \<Rightarrow> fail_block s)"
  by (simp add: vec__grow_or_fail_def vec__has_header_def header_at_live Let_def)

lemma reserve_null:
  "handle s = None \<Longrightarrow>
   vec__reserve_or_fail esz capacity fail_block alloc s =
     (if capacity = 0 then Inr s
      else case alloc of
        Some p \<Rightarrow>
          if sizeof_vec__header_t + esz * capacity < sizeof_vec__header_t
          then Inl (Undefined Out_of_bounds)
          else Inr (s\<lparr>handle := Some p,
                      heap := (heap s)(p \<mapsto>
                        \<lparr>len = 0, cap = capacity,
                         slots = resized esz (sizeof_vec__header_t + esz * capacity) []\<rparr>)\<rparr>)
      | None \<Rightarrow> fail_block s)"
  by (simp add: vec__reserve_or_fail_def vec__has_header_def Let_def)

lemma reserve_live:
  "handle s = Some a \<Longrightarrow> heap s a = Some b \<Longrightarrow>
   vec__reserve_or_fail esz capacity fail_block alloc s =
     (if capacity = 0 \<or> \<not> capacity > cap b then Inr s
      else case alloc of
        Some p \<Rightarrow>
          if sizeof_vec__header_t + esz * capacity < sizeof_vec__header_t
          then Inl (Undefined Out_of_bounds)
          else Inr (s\<lparr>handle := Some p,
                      heap := ((heap s)(a := None))(p \<mapsto>
                        \<lparr>len = len b, cap = capacity,
                         slots = resized esz (sizeof_vec__header_t + esz * capacity) (slots b)\<rparr>)\<rparr>)
      | None \<Rightarrow> fail_block s)"
  by (simp add: vec__reserve_or_fail_def vec__has_header_def header_at_live Let_def)

lemma vec_try_reserve_granted:
  "vec_try_reserve esz capacity (Some p) s = vec_reserve esz capacity (Some p) s"
  by (simp add: vec_try_reserve_def vec_reserve_def vec__reserve_or_fail_def Let_def
      split: sum.splits)

lemma deinit_loop_upt: "deinit_loop a i n = map (\<lambda>k. (a, int k)) [unat i..<unat n]"
proof (induction a i n rule: deinit_loop.induct)
  case (1 a i n)
  show ?case
  proof (cases "i < n")
    case True
    then have "unat i < unat n" by (simp add: word_less_nat_alt)
    then have "[unat i..<unat n] = unat i # [Suc (unat i)..<unat n]"
      by (rule upt_conv_Cons)
    with True 1 show ?thesis
      by (subst deinit_loop.simps) (simp add: unat_succ_less)
  next
    case False
    then have "unat n \<le> unat i" by (simp add: word_less_nat_alt)
    with False show ?thesis
      by (subst deinit_loop.simps) simp
  qed
qed

subsection \<open>Fail-soft calls that start with a clean \<open>errno\<close>\<close>

text \<open>
  When \<open>errno\<close> is not \<open>ENOMEM\<close> on entry, a fail-soft append either leaves everything
  but \<open>errno\<close> as it was, or does exactly what the fail-fast one does.
\<close>

lemma grow_soft_or_granted:
  assumes "vec__grow_or_fail esz set_ENOMEM alloc s = Inr s1"
  shows "s1 = s\<lparr>errno := ENOMEM\<rparr>
    \<or> (errno s1 = errno s
        \<and> vec__grow_or_fail esz (VEC_PANIC reason) alloc s = Inr s1)"
  using assms
  by (auto simp: vec__grow_or_fail_def set_ENOMEM_def VEC_PANIC_def Let_def
      split: if_splits option.splits sum.splits prod.splits)

lemma write_last_errno: "write_last v s = Inr s' \<Longrightarrow> errno s' = errno s"
  by (auto simp: write_last_def split: sum.splits prod.splits)

lemma vec_try_push_clean_errno:
  assumes "errno s \<noteq> ENOMEM" and "vec_try_push esz v alloc s = Inr s'"
  shows "s' = s\<lparr>errno := ENOMEM\<rparr>
    \<or> (errno s' = errno s \<and> vec_push esz v alloc s = Inr s')"
proof -
  from assms(2) obtain s1 where g: "vec__grow_or_fail esz set_ENOMEM alloc s = Inr s1"
    and w: "(if errno s1 \<noteq> ENOMEM then write_last v s1 else Inr s1) = Inr s'"
    by (auto simp: vec_try_push_def split: sum.splits)
  from grow_soft_or_granted [OF g, of "''vec_push out of memory''"] show ?thesis
  proof
    assume "s1 = s\<lparr>errno := ENOMEM\<rparr>"
    with w show ?thesis by simp
  next
    assume h: "errno s1 = errno s
      \<and> vec__grow_or_fail esz (VEC_PANIC ''vec_push out of memory'') alloc s = Inr s1"
    with assms(1) w have "write_last v s1 = Inr s'" by simp
    with h write_last_errno [OF this] show ?thesis
      by (simp add: vec_push_def)
  qed
qed

lemma vec_try_emplace_clean_errno:
  assumes "errno s \<noteq> ENOMEM" and "vec_try_emplace esz alloc s = Inr (s', r)"
  shows "(s' = s\<lparr>errno := ENOMEM\<rparr> \<and> r = None)
    \<or> (\<exists>p. r = Some p \<and> errno s' = errno s \<and> vec_emplace esz alloc s = Inr (s', p))"
proof -
  from assms(2) obtain s1 where g: "vec__grow_or_fail esz set_ENOMEM alloc s = Inr s1"
    and w: "(if errno s1 \<noteq> ENOMEM
             then (case last_slot s1 of Inl e \<Rightarrow> Inl e | Inr p \<Rightarrow> Inr (s1, Some p))
             else Inr (s1, None)) = Inr (s', r)"
    by (auto simp: vec_try_emplace_def split: sum.splits)
  from grow_soft_or_granted [OF g, of "''vec_emplace out of memory''"] show ?thesis
  proof
    assume "s1 = s\<lparr>errno := ENOMEM\<rparr>"
    with w show ?thesis by simp
  next
    assume h: "errno s1 = errno s
      \<and> vec__grow_or_fail esz (VEC_PANIC ''vec_emplace out of memory'') alloc s = Inr s1"
    with assms(1) w show ?thesis
      by (auto simp: vec_emplace_def split: sum.splits)
  qed
qed

subsection \<open>Runs of pushes\<close>

lemma write_last_live:
  "handle s = Some a \<Longrightarrow> heap s a = Some b \<Longrightarrow>
   write_last v s =
     (if unat (len b - 1) < length (slots b)
      then Inr (s\<lparr>heap := (heap s)(a \<mapsto> b\<lparr>slots := (slots b)[unat (len b - 1) := Some v]\<rparr>)\<rparr>)
      else Inl (Undefined Out_of_bounds))"
  by (simp add: write_last_def header_at_live store_def)

lemma push_first:
  fixes s :: "('w::len, 'a) state"
  assumes "handle s = None" and "vec_push esz v alloc s = Inr s'"
  shows "\<exists>p. alloc = Some p \<and> handle s' = Some p \<and> 
     heap s' p = Some \<lparr>len = 1, cap = 1, slots = [Some v]\<rparr>"
proof -
  from assms obtain p where p: "alloc = Some p"
    by (cases alloc) (auto simp: vec_push_def grow_null VEC_PANIC_def)
  let ?bytes = "sizeof_vec__header_t + esz :: 'w word"
  from assms p have fits: "\<not> ?bytes < sizeof_vec__header_t"
    by (auto simp: vec_push_def grow_null split: if_splits)
  let ?s1 = "s\<lparr>handle := Some p, heap := (heap s)(p \<mapsto> \<lparr>len = 1, cap = 1, slots = resized esz ?bytes []\<rparr>)\<rparr>"
  from assms p fits have w: "write_last v ?s1 = Inr s'"
    by (simp add: vec_push_def grow_null)
  have le: "length (resized esz ?bytes [] :: 'a option list) \<le> 1"
    using slots_in_le_one [OF fits] by (simp add: length_resized)
  from w have "(resized esz ?bytes [] :: 'a option list) \<noteq> []"
    by (auto simp: write_last_live split: if_splits)
  with le obtain x where x: "(resized esz ?bytes [] :: 'a option list) = [x]"
    by (cases "resized esz ?bytes [] :: 'a option list") auto
  from w show ?thesis
    by (auto simp: write_last_live p x)
qed

lemma push_room:
  fixes s :: "('w::len, 'a) state"
  assumes "handle s = Some a" and "heap s a = Some b" and "len b < cap b"
    and "vec_push esz v alloc s = Inr s'"
  shows "unat (len b) < length (slots b) \<and>
     s' = s\<lparr>heap := (heap s)(a \<mapsto> b\<lparr>len := len b + 1, slots := (slots b)[unat (len b) := Some v]\<rparr>)\<rparr>"
  using assms(4)
  by (auto simp: vec_push_def grow_room [OF assms(1-3)] write_last_live assms(1) split: if_splits)

lemma push_full:
  fixes s :: "('w::len, 'a) state"
  assumes "handle s = Some a" and "heap s a = Some b" and "\<not> len b < cap b"
    and "vec_push esz v alloc s = Inr s'"
  shows "\<exists>p. alloc = Some p \<and>
     \<not> sizeof_vec__header_t + esz * (cap b * 2) < (sizeof_vec__header_t :: 'w word) \<and>
     unat (len b) < slots_in esz (sizeof_vec__header_t + esz * (cap b * 2)) \<and>
     s' = s\<lparr>handle := Some p,
            heap := ((heap s)(a := None))(p \<mapsto>
              \<lparr>len = len b + 1, cap = cap b * 2,
               slots = (resized esz (sizeof_vec__header_t + esz * (cap b * 2)) (slots b))
                         [unat (len b) := Some v]\<rparr>)\<rparr>"
proof -
  from assms obtain p where p: "alloc = Some p"
    by (cases alloc) (auto simp: vec_push_def grow_full VEC_PANIC_def)
  from assms(4) show ?thesis
    by (auto simp: vec_push_def grow_full [OF assms(1-3)] p write_last_live length_resized
        split: if_splits)
qed

lemma pushed_step:
  fixes s :: "('w::len, 'a) state"
  assumes inv: "pushed s vs" and push: "vec_push esz v alloc s = Inr s'"
  shows "pushed s' (vs @ [v])"
proof (cases "handle s")
  case None
  with inv have "vs = []" by (auto simp: pushed_def)
  moreover from push_first [OF None push] obtain p where
    "handle s' = Some p" "heap s' p = Some \<lparr>len = 1, cap = 1, slots = [Some v]\<rparr>"
    by blast
  ultimately show ?thesis
    unfolding pushed_def by (intro disjI2 exI [of _ p] exI [of _ 0] exI) auto
next
  case (Some a)
  with inv obtain b k where b: "heap s a = Some b"
    and n: "unat (len b) = length vs" and fit: "length vs \<le> length (slots b)"
    and room: "length (slots b) \<le> unat (cap b)"
    and elems: "take (length vs) (slots b) = map Some vs"
    and k: "unat (cap b) = 2 ^ k" "length vs \<le> 2 ^ k" "2 ^ k < 2 * length vs"
    by (auto simp: pushed_def)
  show ?thesis
  proof (cases "len b < cap b")
    case True
    from push_room [OF Some b True push]
    have idx: "length vs < length (slots b)"
      and s': "s' = s\<lparr>heap := (heap s)(a \<mapsto> b\<lparr>len := len b + 1, slots := (slots b)[length vs := Some v]\<rparr>)\<rparr>"
      by (simp_all add: n)
    have len': "unat (len b + 1) = Suc (length vs)"
      using unat_succ_less [OF True] n by simp
    from True have "length vs < 2 ^ k"
      using n k(1) by (simp add: word_less_nat_alt)
    moreover have "take (Suc (length vs)) ((slots b)[length vs := Some v]) = map Some (vs @ [v])"
      using idx elems by (simp add: take_Suc_conv_app_nth)
    ultimately show ?thesis
      unfolding pushed_def using Some s' len' idx room k
      by (intro disjI2 exI [of _ a] exI [of _ k] exI) auto
  next
    case False
    let ?bytes = "sizeof_vec__header_t + esz * (cap b * 2) :: 'w word"
    from push_full [OF Some b False push] obtain p where
      fits: "\<not> ?bytes < sizeof_vec__header_t"
      and idx: "length vs < slots_in esz ?bytes"
      and s': "s' = s\<lparr>handle := Some p,
            heap := ((heap s)(a := None))(p \<mapsto>
              \<lparr>len = len b + 1, cap = cap b * 2,
               slots = (resized esz ?bytes (slots b))[length vs := Some v]\<rparr>)\<rparr>"
      by (auto simp: n)
    from False have "unat (cap b) \<le> unat (len b)"
      by (simp add: word_less_nat_alt)
    with n fit room have full: "length vs = unat (cap b)" "length (slots b) = length vs"
      by simp_all
    have cap': "slots_in esz ?bytes \<le> unat (cap b * 2)"
      by (rule slots_in_le_cap [OF fits])
    with idx full have "unat (cap b) < unat (cap b * 2)" by simp
    then have dbl: "unat (cap b * 2) = 2 * unat (cap b)"
      by (rule double_no_wrap)
    have "len b < cap b * 2"
      using n full dbl idx cap' by (simp add: word_less_nat_alt)
    then have len': "unat (len b + 1) = Suc (length vs)"
      using unat_succ_less n by fastforce
    have "take (length vs) (resized esz ?bytes (slots b)) = take (length vs) (slots b)"
      using idx full by (intro take_resized) simp_all
    then have "take (Suc (length vs)) ((resized esz ?bytes (slots b))[length vs := Some v])
        = map Some (vs @ [v])"
      using idx elems by (simp add: take_Suc_conv_app_nth length_resized)
    moreover have "unat (cap b * 2) = 2 ^ Suc k" "Suc (length vs) \<le> 2 ^ Suc k"
      "2 ^ Suc k < 2 * Suc (length vs)"
      using dbl k full by simp_all
    ultimately show ?thesis
      unfolding pushed_def using s' len' idx cap'
      by (intro disjI2 exI [of _ p] exI [of _ "Suc k"] exI) (auto simp: length_resized)
  qed
qed

lemma pushed_run:
  fixes s :: "('w::len, 'a) state"
  assumes "pushed s vs" and "length allocs = length ws"
    and "run esz (map2 VEC_PUSH ws allocs) s = Inr s'"
  shows "pushed s' (vs @ ws)"
  using assms
proof (induction ws arbitrary: vs s allocs)
  case Nil
  then show ?case by simp
next
  case (Cons w ws)
  from Cons.prems(2) obtain al allocs' where allocs: "allocs = al # allocs'"
    and len: "length allocs' = length ws"
    by (cases allocs) auto
  from Cons.prems(3) obtain s1 where
    first: "vec_push esz w al s = Inr s1" and rest: "run esz (map2 VEC_PUSH ws allocs') s1 = Inr s'"
    by (auto simp: allocs split: sum.splits)
  from pushed_step [OF Cons.prems(1) first] have "pushed s1 (vs @ [w])" .
  from Cons.IH [OF this len rest] show ?case by simp
qed

lemma pushed_init: "pushed (vec_init s) []"
  by (simp add: pushed_def vec_init_def)

lemma three_pushes:
  "run 4 (map2 VEC_PUSH [7, 8, 9] [Some 1, Some 2, Some 3]) (vec_init fresh_vec) = Inr three_pushed"
  by (simp add: fresh_vec_def three_pushed_def vec_init_def vec_push_def grow_null grow_room
      grow_full write_last_live sizeof_vec__header_t_def resized_def slots_in_def
      replicate_numeral)

subsection \<open>The shifting loop\<close>

lemma shift_loop_result:
  fixes b :: "('w::len, 'a) allocation"
  assumes "unat (len b) < length (slots b)"
  shows "\<exists>b'. shift_loop i b = Inr b' \<and> len b' = len b \<and> cap b' = cap b
      \<and> length (slots b') = length (slots b)
      \<and> (\<forall>j < length (slots b).
            slots b' ! j = (if unat i \<le> j \<and> j < unat (len b) then slots b ! Suc j else slots b ! j))"
  using assms
proof (induction i b rule: shift_loop.induct)
  case (1 i b)
  show ?case
  proof (cases "i < len b")
    case False
    then have "unat (len b) \<le> unat i" by (simp add: word_less_nat_alt)
    with False show ?thesis
      by (subst shift_loop.simps) auto
  next
    case True
    then have i: "unat i < unat (len b)" and suc: "unat (i + 1) = Suc (unat i)"
      by (simp_all add: word_less_nat_alt unat_succ_less)
    let ?xs = "slots b"
    let ?b1 = "b\<lparr>slots := ?xs[unat i := ?xs ! Suc (unat i)]\<rparr>"
    from i "1.prems" have ld: "load (unat (i + 1)) b = Inr (?xs ! Suc (unat i))"
      and st: "store (unat i) (?xs ! Suc (unat i)) b = Inr ?b1"
      by (simp_all add: load_def store_def suc)
    have "unat (len ?b1) < length (slots ?b1)" using "1.prems" by simp
    from "1.IH" [OF True ld st this] obtain b' where
      b': "shift_loop (i + 1) ?b1 = Inr b'" "len b' = len b" "cap b' = cap b"
        "length (slots b') = length ?xs"
      and nth: "\<forall>j < length ?xs. slots b' ! j =
          (if Suc (unat i) \<le> j \<and> j < unat (len b)
           then ?xs[unat i := ?xs ! Suc (unat i)] ! Suc j
           else ?xs[unat i := ?xs ! Suc (unat i)] ! j)"
      by (auto simp: suc)
    have "shift_loop i b = Inr b'"
      using True ld st b'(1) by (subst shift_loop.simps) simp
    moreover have "\<forall>j < length ?xs.
        slots b' ! j = (if unat i \<le> j \<and> j < unat (len b) then ?xs ! Suc j else ?xs ! j)"
    proof (intro allI impI)
      fix j assume j: "j < length ?xs"
      with nth have eq: "slots b' ! j =
          (if Suc (unat i) \<le> j \<and> j < unat (len b)
           then ?xs[unat i := ?xs ! Suc (unat i)] ! Suc j
           else ?xs[unat i := ?xs ! Suc (unat i)] ! j)" by blast
      show "slots b' ! j = (if unat i \<le> j \<and> j < unat (len b) then ?xs ! Suc j else ?xs ! j)"
      proof (cases "j = unat i")
        case True
        with eq i j show ?thesis by simp
      next
        case False
        with eq i j show ?thesis by (auto simp: nth_list_update)
      qed
    qed
    ultimately show ?thesis using b' by blast
  qed
qed

lemma shift_loop_header:
  "shift_loop i b = Inr b' \<Longrightarrow> len b' = len b \<and> cap b' = cap b"
proof (induction i b rule: shift_loop.induct)
  case (1 i b)
  show ?case
  proof (cases "i < len b")
    case False
    with "1.prems" show ?thesis
      by (subst (asm) shift_loop.simps) simp
  next
    case True
    with "1.prems" obtain x b1 where ld: "load (unat (i + 1)) b = Inr x"
      and st: "store (unat i) x b = Inr b1" and rest: "shift_loop (i + 1) b1 = Inr b'"
      by (subst (asm) shift_loop.simps) (auto split: sum.splits)
    from "1.IH" [OF True ld st rest] store_header [OF st] show ?thesis by simp
  qed
qed

subsection \<open>The invariant, call by call\<close>

lemma vec_invariant_iff:
  "vec_invariant s \<longleftrightarrow>
     handle s = None \<or> (\<exists>a b. handle s = Some a \<and> heap s a = Some b \<and> len b \<le> cap b \<and> cap b \<noteq> 0)"
  by (auto simp: vec_invariant_def vec_len_eq vec_cap_eq split: option.splits)

lemma vec_invariant_null: "handle s = None \<Longrightarrow> vec_invariant s"
  by (simp add: vec_invariant_iff)

lemma vec_invariant_live:
  "handle s = Some a \<Longrightarrow> heap s a = Some b \<Longrightarrow> vec_invariant s \<longleftrightarrow> len b \<le> cap b \<and> cap b \<noteq> 0"
  by (simp add: vec_invariant_iff)

lemma doubling_overflows_live:
  fixes s :: "('w::len, 'a) state"
  shows "handle s = Some a \<Longrightarrow> heap s a = Some b \<Longrightarrow>
    doubling_overflows s \<longleftrightarrow> \<not> len b < cap b \<and> 2 ^ LENGTH('w) \<le> 2 * unat (cap b)"
  by (simp add: doubling_overflows_def header_at_live)

lemma panic_never_returns: "VEC_PANIC reason s = Inr r \<Longrightarrow> handle r = handle s \<and> heap r = heap s"
  by (simp add: VEC_PANIC_def)

lemma set_ENOMEM_keeps: "set_ENOMEM s = Inr r \<Longrightarrow> handle r = handle s \<and> heap r = heap s"
  by (auto simp: set_ENOMEM_def)

lemma grow_invariant:
  fixes s :: "('w::len, 'a) state"
  assumes inv: "vec_invariant s" and safe: "\<not> doubling_overflows s"
    and grow: "vec__grow_or_fail esz fail_block alloc s = Inr s'"
    and fail: "\<And>r. fail_block s = Inr r \<Longrightarrow> handle r = handle s \<and> heap r = heap s"
  shows "vec_invariant s'"
proof (cases "handle s")
  case None
  show ?thesis
  proof (cases alloc)
    case (Some p)
    with grow None show ?thesis
      by (auto simp: grow_null vec_invariant_iff split: if_splits)
  next
    case none: None
    with grow None have "fail_block s = Inr s'" by (simp add: grow_null)
    from fail [OF this] None show ?thesis by (simp add: vec_invariant_null)
  qed
next
  case (Some a)
  with inv obtain b where b: "heap s a = Some b" and le: "len b \<le> cap b" and nz: "cap b \<noteq> 0"
    by (auto simp: vec_invariant_iff)
  show ?thesis
  proof (cases "len b < cap b")
    case True
    then have "len b + 1 \<le> cap b" by (rule inc_le)
    with grow nz show ?thesis
      by (auto simp: grow_room [OF Some b True] vec_invariant_iff Some)
  next
    case False
    with le have full: "len b = cap b" by simp
    from safe False have fits: "2 * unat (cap b) < 2 ^ LENGTH('w)"
      by (simp add: doubling_overflows_live [OF Some b])
    show ?thesis
    proof (cases alloc)
      case (Some p)
      with grow doubled_holds_next [OF nz fits] full show ?thesis
        by (auto simp: grow_full [OF \<open>handle s = Some a\<close> b False] vec_invariant_iff
            split: if_splits)
    next
      case None
      with grow have "fail_block s = Inr s'"
        by (simp add: grow_full [OF Some b False])
      from fail [OF this] Some b le nz show ?thesis
        by (simp add: vec_invariant_iff)
    qed
  qed
qed

lemma write_last_invariant:
  assumes "vec_invariant s" and "write_last v s = Inr s'"
  shows "vec_invariant s'"
proof (cases "handle s")
  case None
  with assms(2) show ?thesis
    by (simp add: write_last_def header_at_def vec__get_header_def)
next
  case (Some a)
  with assms(2) obtain b where b: "heap s a = Some b"
    by (auto simp: write_last_def header_at_def vec__get_header_def split: option.splits)
  from assms show ?thesis
    by (auto simp: write_last_live [OF Some b] vec_invariant_iff Some b split: if_splits)
qed

lemma append_invariant:
  fixes s :: "('w::len, 'a) state"
  assumes inv: "vec_invariant s" and safe: "\<not> doubling_overflows s"
  shows "vec_push esz v alloc s = Inr s' \<Longrightarrow> vec_invariant s'"
    and "vec_try_push esz v alloc s = Inr s' \<Longrightarrow> vec_invariant s'"
    and "vec_emplace esz alloc s = Inr (s', p) \<Longrightarrow> vec_invariant s'"
    and "vec_try_emplace esz alloc s = Inr (s', q) \<Longrightarrow> vec_invariant s'"
proof -
  note panic = grow_invariant [OF inv safe _ panic_never_returns]
  note soft = grow_invariant [OF inv safe _ set_ENOMEM_keeps]
  show "vec_push esz v alloc s = Inr s' \<Longrightarrow> vec_invariant s'"
    by (auto simp: vec_push_def split: sum.splits dest: panic intro: write_last_invariant)
  show "vec_try_push esz v alloc s = Inr s' \<Longrightarrow> vec_invariant s'"
    by (auto simp: vec_try_push_def split: sum.splits if_splits dest: soft
        intro: write_last_invariant)
  show "vec_emplace esz alloc s = Inr (s', p) \<Longrightarrow> vec_invariant s'"
    by (auto simp: vec_emplace_def split: sum.splits dest: panic)
  show "vec_try_emplace esz alloc s = Inr (s', q) \<Longrightarrow> vec_invariant s'"
    by (auto simp: vec_try_emplace_def split: sum.splits if_splits dest: soft)
qed

lemma reserve_invariant:
  fixes s :: "('w::len, 'a) state"
  assumes inv: "vec_invariant s"
    and res: "vec__reserve_or_fail esz capacity fail_block alloc s = Inr s'"
    and fail: "\<And>r. fail_block s = Inr r \<Longrightarrow> handle r = handle s \<and> heap r = heap s"
  shows "vec_invariant s'"
proof (cases "handle s")
  case None
  show ?thesis
  proof (cases "capacity = 0 \<or> alloc = None")
    case True
    with res None have "s' = s \<or> fail_block s = Inr s'"
      by (auto simp: reserve_null split: if_splits)
    with fail None show ?thesis
      by (auto simp: vec_invariant_null)
  next
    case False
    with res None show ?thesis
      by (auto simp: reserve_null vec_invariant_iff split: if_splits)
  qed
next
  case (Some a)
  with inv obtain b where b: "heap s a = Some b" and le: "len b \<le> cap b" and nz: "cap b \<noteq> 0"
    by (auto simp: vec_invariant_iff)
  show ?thesis
  proof (cases "capacity = 0 \<or> \<not> capacity > cap b \<or> alloc = None")
    case True
    with res have "s' = s \<or> fail_block s = Inr s'"
      by (auto simp: reserve_live [OF Some b] split: if_splits)
    with fail inv Some b le nz show ?thesis
      by (auto simp: vec_invariant_iff)
  next
    case False
    with res le show ?thesis
      by (auto simp: reserve_live [OF Some b] vec_invariant_iff split: if_splits)
  qed
qed

lemma pop_invariant:
  assumes "vec_invariant s" and "vec_pop s = Inr s'"
  shows "vec_invariant s'"
proof -
  from assms(2) obtain u a b where
    chk: "VEC_ASSERT (map_result (\<lambda>l. l > 0) (vec_len s)) ''vec_pop empty'' = Inr u"
    and hdr: "header_at s = Inr (a, b)"
    and s': "s' = s\<lparr>heap := (heap s)(a \<mapsto> b\<lparr>len := len b - 1\<rparr>)\<rparr>"
    by (auto simp: vec_pop_def split: sum.splits)
  from hdr have live: "handle s = Some a" "heap s a = Some b"
    by (auto simp: header_at_def vec__get_header_def split: option.splits)
  from assert_len [OF chk] live have "0 < len b"
    by (simp add: vec_len_live)
  then have "len b - 1 \<le> len b"
    using unat_pred_less(3) [of 0 "len b"] by simp
  with assms(1) live show ?thesis
    by (auto simp: s' vec_invariant_iff)
qed

lemma clear_invariant:
  assumes "vec_invariant s" and "vec_clear s = Inr s'"
  shows "vec_invariant s'"
  using assms
  by (auto simp: vec_clear_def vec__has_header_def header_at_def vec__get_header_def
      vec_invariant_iff split: if_splits option.splits)

lemma swap_invariant:
  assumes "vec_invariant s" and "vec_remove_swap_at index s = Inr s'"
  shows "vec_invariant s'"
proof -
  from assms(2) obtain u a b x b2 where
    chk: "VEC_ASSERT (map_result (\<lambda>l. index < l) (vec_len s))
        ''vec_remove_swap_at out of bounds'' = Inr u"
    and hdr: "header_at s = Inr (a, b)"
    and st: "store (unat index) x (b\<lparr>len := len b - 1\<rparr>) = Inr b2"
    and s': "s' = s\<lparr>heap := (heap s)(a \<mapsto> b2)\<rparr>"
    by (auto simp: vec_remove_swap_at_def Let_def split: sum.splits)
  from hdr have live: "handle s = Some a" "heap s a = Some b"
    by (auto simp: header_at_def vec__get_header_def split: option.splits)
  from assert_len [OF chk] live have "index < len b"
    by (simp add: vec_len_live)
  then have "len b - 1 \<le> len b"
    using unat_pred_less(3) [of index "len b"] by simp
  with assms(1) live store_header [OF st] show ?thesis
    by (auto simp: s' vec_invariant_iff)
qed

lemma shift_invariant:
  assumes "vec_invariant s" and "vec_remove_shift_at index s = Inr s'"
  shows "vec_invariant s'"
proof -
  from assms(2) obtain u a b b2 where
    chk: "VEC_ASSERT (map_result (\<lambda>l. index < l) (vec_len s))
        ''vec_remove_shift_at out of bounds'' = Inr u"
    and hdr: "header_at s = Inr (a, b)"
    and loop: "shift_loop index (b\<lparr>len := len b - 1\<rparr>) = Inr b2"
    and s': "s' = s\<lparr>heap := (heap s)(a \<mapsto> b2)\<rparr>"
    by (auto simp: vec_remove_shift_at_def split: sum.splits)
  from hdr have live: "handle s = Some a" "heap s a = Some b"
    by (auto simp: header_at_def vec__get_header_def split: option.splits)
  from assert_len [OF chk] live have "index < len b"
    by (simp add: vec_len_live)
  then have "len b - 1 \<le> len b"
    using unat_pred_less(3) [of index "len b"] by simp
  with assms(1) live shift_loop_header [OF loop] show ?thesis
    by (auto simp: s' vec_invariant_iff)
qed

lemma call_invariant:
  fixes s :: "('w::len, 'a) state"
  assumes "vec_invariant s" and "c \<noteq> VEC_DEINIT"
    and "\<not> (is_append c \<and> doubling_overflows s)"
    and "call esz c s = Inr s'"
  shows "vec_invariant s'"
proof (cases c)
  case VEC_INIT
  with assms(4) show ?thesis by (auto simp: vec_init_def vec_invariant_null)
next
  case (VEC_PUSH v alloc)
  with assms show ?thesis by (auto intro: append_invariant(1))
next
  case (VEC_TRY_PUSH v alloc)
  with assms show ?thesis by (auto intro: append_invariant(2))
next
  case (VEC_EMPLACE alloc)
  with assms show ?thesis
    by (auto simp: map_result_def split: sum.splits intro: append_invariant(3))
next
  case (VEC_TRY_EMPLACE alloc)
  with assms show ?thesis
    by (auto simp: map_result_def split: sum.splits intro: append_invariant(4))
next
  case (VEC_RESERVE capacity alloc)
  with assms show ?thesis
    by (auto simp: vec_reserve_def intro: reserve_invariant [OF _ _ panic_never_returns])
next
  case (VEC_TRY_RESERVE capacity alloc)
  with assms show ?thesis
    by (auto simp: vec_try_reserve_def intro: reserve_invariant [OF _ _ set_ENOMEM_keeps])
next
  case VEC_POP
  with assms show ?thesis by (auto intro: pop_invariant)
next
  case VEC_CLEAR
  with assms show ?thesis by (auto intro: clear_invariant)
next
  case (VEC_REMOVE_SWAP_AT index)
  with assms show ?thesis by (auto intro: swap_invariant)
next
  case (VEC_REMOVE_SHIFT_AT index)
  with assms show ?thesis by (auto intro: shift_invariant)
next
  case VEC_DEINIT
  with assms(2) show ?thesis by simp
qed

lemma states_after_invariant:
  fixes s :: "('w::len, 'a) state"
  assumes "vec_invariant s" and "VEC_DEINIT \<notin> set cs" and "no_doubling_overflow esz cs s"
  shows "\<forall>s' \<in> set (states_after esz cs s). vec_invariant s'"
  using assms
proof (induction cs arbitrary: s)
  case Nil
  then show ?case by simp
next
  case (Cons c cs)
  show ?case
  proof (cases "call esz c s")
    case (Inl e)
    then show ?thesis by simp
  next
    case (Inr s1)
    with Cons.prems have "vec_invariant s1"
      by (intro call_invariant [of s c esz s1]) auto
    moreover from Cons.prems Inr have "no_doubling_overflow esz cs s1" "VEC_DEINIT \<notin> set cs"
      by auto
    ultimately have "\<forall>s' \<in> set (states_after esz cs s1). vec_invariant s'"
      by (intro Cons.IH)
    with \<open>vec_invariant s1\<close> Inr show ?thesis by simp
  qed
qed

subsection \<open>Evaluating sequences of calls\<close>

lemma run_append:
  "run esz (cs @ ds) s = (case run esz cs s of Inl e \<Rightarrow> Inl e | Inr s' \<Rightarrow> run esz ds s')"
  by (induction cs arbitrary: s) (auto split: sum.splits)

lemma emplace_room:
  assumes "handle s = Some a" and "heap s a = Some b" and "len b < cap b"
  shows "call esz (VEC_EMPLACE alloc) s = Inr (s\<lparr>heap := (heap s)(a \<mapsto> b\<lparr>len := len b + 1\<rparr>)\<rparr>)"
  by (simp add: map_result_def vec_emplace_def grow_room [OF assms] last_slot_def
      header_at_def vec__get_header_def assms(1))

lemma emplace_repeatedly:
  fixes s :: "('w::len, 'a) state"
  assumes "handle s = Some a" and "heap s a = Some b" and "unat (len b) + n \<le> unat (cap b)"
  shows "run esz (replicate n (VEC_EMPLACE alloc)) s
    = Inr (s\<lparr>heap := (heap s)(a \<mapsto> b\<lparr>len := len b + word_of_nat n\<rparr>)\<rparr>)"
  using assms
proof (induction n arbitrary: s b)
  case 0
  then show ?case by (simp add: fun_upd_idem)
next
  case (Suc n)
  from Suc.prems(3) have less: "len b < cap b"
    by (simp add: word_less_nat_alt)
  let ?b1 = "b\<lparr>len := len b + 1\<rparr>"
  let ?s1 = "s\<lparr>heap := (heap s)(a \<mapsto> ?b1)\<rparr>"
  have step: "call esz (VEC_EMPLACE alloc) s = Inr ?s1"
    by (rule emplace_room [OF Suc.prems(1,2) less])
  have "unat (len ?b1) + n \<le> unat (cap ?b1)"
    using Suc.prems(3) unat_succ_less [OF less] by simp
  moreover have "handle ?s1 = Some a" "heap ?s1 a = Some ?b1"
    using Suc.prems(1) by simp_all
  ultimately have ih: "run esz (replicate n (VEC_EMPLACE alloc)) ?s1
      = Inr (?s1\<lparr>heap := (heap ?s1)(a \<mapsto> ?b1\<lparr>len := len ?b1 + word_of_nat n\<rparr>)\<rparr>)"
    by (intro Suc.IH)
  have eq: "?s1\<lparr>heap := (heap ?s1)(a \<mapsto> ?b1\<lparr>len := len ?b1 + word_of_nat n\<rparr>)\<rparr>
      = s\<lparr>heap := (heap s)(a \<mapsto> b\<lparr>len := len b + word_of_nat (Suc n)\<rparr>)\<rparr>"
    by (simp add: add.assoc)
  have "run esz (replicate (Suc n) (VEC_EMPLACE alloc)) s
      = run esz (replicate n (VEC_EMPLACE alloc)) ?s1"
    by (simp only: replicate_Suc run.simps step sum.case)
  also note ih
  also note eq
  finally show ?case .
qed

lemmas eval_defs = vec_init_def vec_push_def vec_try_push_def vec_emplace_def vec_try_emplace_def
  vec_reserve_def vec_try_reserve_def vec_pop_def vec_clear_def vec_remove_swap_at_def
  vec_remove_shift_at_def vec_deinit_def vec__grow_or_fail_def vec__reserve_or_fail_def
  vec__has_header_def vec__get_header_def header_at_def write_last_def last_slot_def
  load_def store_def VEC_FREE_def VEC_PANIC_def VEC_ASSERT_def set_ENOMEM_def map_result_def
  sizeof_vec__header_t_def resized_def slots_in_def vec_len_def vec_cap_def Let_def
  shift_loop.simps replicate_numeral ENOMEM_def

lemma example_states:
  "states_after 4 (VEC_INIT # example_calls) fresh_vec ! 10
     = \<lparr>handle = Some 4, heap = [4 \<mapsto> \<lparr>len = 0, cap = 16, slots = Some 8 # Some 8 # replicate 14 None\<rparr>], errno = 12\<rparr>"
  "length (states_after 4 (VEC_INIT # example_calls) fresh_vec) = 11"
  by (simp_all add: example_calls_def fresh_vec_def eval_defs)

lemma reserve_half_range:
  "call 1 (VEC_RESERVE (2 ^ 31) (Some 1)) (vec_init fresh_bytes)
     = Inr \<lparr>handle = Some 1,
         heap = [1 \<mapsto> \<lparr>len = 0, cap = 2 ^ 31, slots = replicate (2 ^ 31) None\<rparr>],
         errno = 0\<rparr>"
  by (simp add: fresh_bytes_def vec_init_def vec_reserve_def reserve_null
      sizeof_vec__header_t_def resized_def slots_in_def)

lemma fill_half_range:
  "run 1 (replicate (2 ^ 31) (VEC_EMPLACE None))
      \<lparr>handle = Some 1,
       heap = [1 \<mapsto> \<lparr>len = 0, cap = 2 ^ 31, slots = replicate (2 ^ 31) (None :: 8 word option)\<rparr>],
       errno = 0\<rparr>
     = Inr (\<lparr>handle = Some 1,
         heap = [1 \<mapsto> \<lparr>len = 2 ^ 31, cap = 2 ^ 31, slots = replicate (2 ^ 31) None\<rparr>],
         errno = 0\<rparr> :: (32, 8 word) state)"
proof -
  let ?b = "\<lparr>len = 0, cap = 2 ^ 31, slots = replicate (2 ^ 31) None\<rparr> :: (32, 8 word) allocation"
  let ?s = "\<lparr>handle = Some 1, heap = [1 \<mapsto> ?b], errno = 0\<rparr> :: (32, 8 word) state"
  have "handle ?s = Some 1" "heap ?s 1 = Some ?b" "unat (len ?b) + 2 ^ 31 \<le> unat (cap ?b)"
    by simp_all
  from emplace_repeatedly [OF this, of 1 None] show ?thesis
    by simp
qed

lemma overflow_half_range:
  "call 1 (VEC_EMPLACE (Some 2))
      (\<lparr>handle = Some 1,
        heap = [1 \<mapsto> \<lparr>len = 2 ^ 31, cap = 2 ^ 31, slots = replicate (2 ^ 31) None\<rparr>],
        errno = 0\<rparr> :: (32, 8 word) state)
     = Inr wrapped"
proof -
  have wrap: "(4294967296 :: 32 word) = 0"
    by simp
  show ?thesis
    by (simp add: wrapped_def map_result_def vec_emplace_def grow_full last_slot_def
        header_at_def vec__get_header_def sizeof_vec__header_t_def resized_def slots_in_def
        wrap)
qed

section \<open>Release\<close>

text \<open>
  Claim C1, as the code has it. For a handle that points to a live allocation, release
  (\<open>vec_deinit\<close>, \<open>vec_deinit_with\<close>) frees the backing allocation,
  \<open>vec_deinit_with\<close> after calling the destructor on the elements \<open>0 .. length - 1\<close> in
  index order, and leaves the handle as it was: it is not \<open>NULL\<close> and now dangles, so the
  length is no longer readable and a second release frees the same address again. On the
  \<open>NULL\<close> handle release changes nothing, so there it is idempotent.
\<close>

theorem vec_deinit_frees_and_keeps_handle:
  fixes s t :: "('w::len, 'a) state"
  shows "(handle s = Some a \<and> heap s a = Some b \<longrightarrow>
            vec_deinit s = Inr (s\<lparr>heap := (heap s)(a := None)\<rparr>)
          \<and> vec_deinit_with s =
              Inr (s\<lparr>heap := (heap s)(a := None)\<rparr>, map (\<lambda>k. (a, int k)) [0..<unat (len b)])
          \<and> handle (s\<lparr>heap := (heap s)(a := None)\<rparr>) = Some a
          \<and> heap (s\<lparr>heap := (heap s)(a := None)\<rparr>) a = None
          \<and> vec_len (s\<lparr>heap := (heap s)(a := None)\<rparr>) = Inl (Undefined Use_after_free)
          \<and> vec_deinit (s\<lparr>heap := (heap s)(a := None)\<rparr>) = Inl (Undefined Double_free))
    \<and> (handle t = None \<longrightarrow> vec_deinit t = Inr t \<and> vec_deinit_with t = Inr (t, []))"
  by (simp add: vec_deinit_def vec_deinit_with_def VEC_FREE_def vec__has_header_def
      vec__get_header_def header_at_def deinit_loop_upt vec_len_eq)

theorem vec_deinit_frees_and_keeps_handle_witness:
  "vec_deinit example_vec = Inr (example_vec\<lparr>heap := (heap example_vec)(1 := None)\<rparr>)
   \<and> vec_deinit_with example_vec =
       Inr (example_vec\<lparr>heap := (heap example_vec)(1 := None)\<rparr>, [(1, 0), (1, 1), (1, 2), (1, 3)])
   \<and> handle (example_vec\<lparr>heap := (heap example_vec)(1 := None)\<rparr>) = Some 1
   \<and> vec_deinit (example_vec\<lparr>heap := (heap example_vec)(1 := None)\<rparr>)
       = Inl (Undefined Double_free)
   \<and> vec_deinit fresh_vec = Inr fresh_vec
   \<and> vec_deinit_with fresh_vec = Inr (fresh_vec, [])"
proof -
  have live: "handle example_vec = Some 1 \<and> heap example_vec 1 = Some example_block"
    by (simp add: example_vec_def)
  have null: "handle fresh_vec = None"
    by (simp add: fresh_vec_def)
  have calls: "map (\<lambda>k. (1 :: addr, int k)) [0..<unat (len example_block)]
      = [(1, 0), (1, 1), (1, 2), (1, 3)]"
    by (simp add: example_block_def upt_rec)
  from vec_deinit_frees_and_keeps_handle [of example_vec 1 example_block fresh_vec] live null calls
  show ?thesis by simp
qed

text \<open>
  Claim C1 as stated fails: after \<open>vec_init\<close>, one \<open>vec_push\<close> and \<open>vec_deinit\<close> the handle
  is not \<open>NULL\<close>, length and capacity are not readable as 0, and a second \<open>vec_deinit\<close>
  does not return.
\<close>

theorem vec_deinit_not_reset_counterexample:
  "run 4 [VEC_INIT, VEC_PUSH 7 (Some 1), VEC_DEINIT] fresh_vec
     = Inr \<lparr>handle = Some 1, heap = Map.empty, errno = 0\<rparr>
   \<and> handle (\<lparr>handle = Some 1, heap = Map.empty, errno = 0\<rparr> :: (64, int) state) \<noteq> None
   \<and> vec_len (\<lparr>handle = Some 1, heap = Map.empty, errno = 0\<rparr> :: (64, int) state) \<noteq> Inr 0
   \<and> vec_cap (\<lparr>handle = Some 1, heap = Map.empty, errno = 0\<rparr> :: (64, int) state) \<noteq> Inr 0
   \<and> vec_deinit (\<lparr>handle = Some 1, heap = Map.empty, errno = 0\<rparr> :: (64, int) state)
       = Inl (Undefined Double_free)"
  by (simp add: fresh_vec_def vec_init_def vec_push_def grow_null write_last_live
      sizeof_vec__header_t_def resized_def slots_in_def vec_deinit_def VEC_FREE_def
      vec__has_header_def vec__get_header_def vec_len_eq vec_cap_eq)

section \<open>The invariant over sequences of calls\<close>

text \<open>
  Claim C2, as the code has it. For every finite sequence of public calls that starts with
  \<open>vec_init\<close>, contains no \<open>vec_deinit\<close>, and in which no append finds the array full at a
  capacity whose double does not fit \<open>size_t\<close>, the invariant holds after every call that
  returns: \<open>length \<le> capacity\<close>, and the capacity is 0 exactly when the handle is \<open>NULL\<close>.
\<close>

theorem invariant_without_release_or_overflow:
  fixes start :: "('w::len, 'a) state"
  assumes "VEC_DEINIT \<notin> set cs" and "no_doubling_overflow esz (VEC_INIT # cs) start"
  shows "\<forall>s \<in> set (states_after esz (VEC_INIT # cs) start). vec_invariant s"
proof -
  have init: "vec_invariant (vec_init start)"
    by (simp add: vec_init_def vec_invariant_null)
  from assms(2) have "no_doubling_overflow esz cs (vec_init start)"
    by simp
  from states_after_invariant [OF init assms(1) this] init show ?thesis
    by simp
qed

theorem invariant_without_release_or_overflow_witness:
  "VEC_DEINIT \<notin> set example_calls
   \<and> no_doubling_overflow 4 (VEC_INIT # example_calls) fresh_vec
   \<and> length (states_after 4 (VEC_INIT # example_calls) fresh_vec) = 11
   \<and> vec_invariant (states_after 4 (VEC_INIT # example_calls) fresh_vec ! 3)
   \<and> vec_invariant (states_after 4 (VEC_INIT # example_calls) fresh_vec ! 10)"
proof -
  have no_release: "VEC_DEINIT \<notin> set example_calls"
    by (simp add: example_calls_def)
  have safe: "no_doubling_overflow 4 (VEC_INIT # example_calls) fresh_vec"
    by (simp add: example_calls_def fresh_vec_def doubling_overflows_def eval_defs)
  have n: "length (states_after 4 (VEC_INIT # example_calls) fresh_vec) = 11"
    by (rule example_states(2))
  then have "states_after 4 (VEC_INIT # example_calls) fresh_vec ! 3
        \<in> set (states_after 4 (VEC_INIT # example_calls) fresh_vec)"
    and "states_after 4 (VEC_INIT # example_calls) fresh_vec ! 10
        \<in> set (states_after 4 (VEC_INIT # example_calls) fresh_vec)"
    by simp_all
  with invariant_without_release_or_overflow [OF no_release safe] no_release safe n
  show ?thesis by blast
qed

text \<open>
  Claim C2 as stated fails twice. After \<open>vec_init\<close>, \<open>vec_reserve\<close> and \<open>vec_deinit\<close> the
  handle is not \<open>NULL\<close> and no capacity can be read. And on a 32-bit machine, after
  \<open>vec_reserve(vec, 2 ^ 31)\<close> on a vector of bytes and \<open>2 ^ 31\<close> calls of \<open>vec_emplace\<close>, one
  more \<open>vec_emplace\<close> leaves length \<open>2 ^ 31 + 1\<close> and capacity 0 behind a handle that is
  not \<open>NULL\<close>.
\<close>

theorem invariant_broken_counterexample:
  "run 4 [VEC_INIT, VEC_RESERVE 8 (Some 1), VEC_DEINIT] fresh_vec = Inr released
   \<and> \<not> vec_invariant released
   \<and> run 1 (VEC_INIT # VEC_RESERVE (2 ^ 31) (Some 1)
             # replicate (2 ^ 31) (VEC_EMPLACE None) @ [VEC_EMPLACE (Some 2)]) fresh_bytes
      = Inr wrapped
   \<and> \<not> vec_invariant wrapped"
proof -
  have "run 4 [VEC_INIT, VEC_RESERVE 8 (Some 1), VEC_DEINIT] fresh_vec = Inr released"
    by (simp add: fresh_vec_def released_def vec_init_def vec_reserve_def reserve_null
        sizeof_vec__header_t_def vec_deinit_def VEC_FREE_def vec__has_header_def
        vec__get_header_def)
  moreover have "\<not> vec_invariant released"
    by (simp add: released_def vec_invariant_def vec_len_eq vec_cap_eq)
  moreover have "run 1 (VEC_INIT # VEC_RESERVE (2 ^ 31) (Some 1)
             # replicate (2 ^ 31) (VEC_EMPLACE None) @ [VEC_EMPLACE (Some 2)]) fresh_bytes
      = Inr wrapped"
    by (simp only: run.simps call.simps(1) sum.case reserve_half_range run_append
        fill_half_range overflow_half_range)
  moreover have "\<not> vec_invariant wrapped"
    by (simp add: wrapped_def vec_invariant_def vec_len_eq vec_cap_eq)
  ultimately show ?thesis by blast
qed

section \<open>Fail-soft appends\<close>

text \<open>
  Claim C3 fails on the code. \<open>vec_try_push\<close> decides whether to write by testing
  \<open>errno != ENOMEM\<close> and never clears \<open>errno\<close> first. After a \<open>vec_try_push\<close> that failed,
  a second one whose allocation succeeds makes the length 1 and leaves slot 0 unwritten
  (the value 42 is lost), with \<open>errno\<close> still \<open>ENOMEM\<close>: growth succeeded and nothing was
  written.
\<close>

theorem vec_try_push_stale_errno:
  "run 4 [VEC_TRY_PUSH 41 None, VEC_TRY_PUSH 42 (Some 1)] fresh_vec
     = Inr \<lparr>handle = Some 1, heap = [1 \<mapsto> \<lparr>len = 1, cap = 1, slots = [None]\<rparr>],
            errno = ENOMEM\<rparr>"
  by (simp add: fresh_vec_def vec_try_push_def grow_null set_ENOMEM_def
      sizeof_vec__header_t_def resized_def slots_in_def)

text \<open>
  Claim C4 fails on the code. Entered with \<open>errno = ENOMEM\<close>, \<open>vec_try_emplace\<close> whose
  allocation succeeds grows the vector to length 1 and yields \<open>NULL\<close>: the null reference
  does not mean that the array is unchanged.
\<close>

theorem vec_try_emplace_stale_errno:
  "vec_try_emplace 4 (Some 1) (fresh_vec\<lparr>errno := ENOMEM\<rparr>)
     = Inr (\<lparr>handle = Some 1, heap = [1 \<mapsto> \<lparr>len = 1, cap = 1, slots = [None]\<rparr>],
             errno = ENOMEM\<rparr>, None)"
  by (simp add: fresh_vec_def vec_try_emplace_def grow_null
      sizeof_vec__header_t_def resized_def slots_in_def)

section \<open>Appending\<close>

text \<open>
  Claim C5. Starting from a freshly initialised vector, after \<open>N\<close> calls of \<open>vec_push\<close>
  that all returned, with the values \<open>vs = v1 .. vN\<close>, the length is \<open>N\<close> and reading the
  indices \<open>0 .. N - 1\<close> gives \<open>v1 .. vN\<close> in the order of the calls.
\<close>

theorem pushes_read_back:
  fixes start s :: "('w::len, 'a) state"
  assumes "length allocs = length vs"
    and "run esz (map2 VEC_PUSH vs allocs) (vec_init start) = Inr s"
  shows "map_result unat (vec_len s) = Inr (length vs)
    \<and> (\<forall>i < length vs. vec_at s i = Inr (Some (vs ! i)))"
proof -
  from pushed_run [OF pushed_init assms] have inv: "pushed s vs" by simp
  show ?thesis
  proof (cases "handle s")
    case None
    with inv show ?thesis
      by (auto simp: pushed_def map_result_def vec_len_null)
  next
    case (Some a)
    with inv obtain b where b: "heap s a = Some b"
      and n: "unat (len b) = length vs" and fit: "length vs \<le> length (slots b)"
      and elems: "take (length vs) (slots b) = map Some vs"
      by (auto simp: pushed_def)
    have "vec_at s i = Inr (Some (vs ! i))" if "i < length vs" for i
    proof -
      from that have "slots b ! i = take (length vs) (slots b) ! i" by simp
      also have "\<dots> = Some (vs ! i)" using that by (simp add: elems)
      finally show ?thesis
        using that fit by (simp add: vec_at_live [OF Some b] load_def)
    qed
    then show ?thesis
      by (simp add: map_result_def vec_len_live [OF Some b] n)
  qed
qed

theorem pushes_read_back_witness:
  "run 4 (map2 VEC_PUSH [7, 8, 9] [Some 1, Some 2, Some 3]) (vec_init fresh_vec)
      = Inr three_pushed
   \<and> map_result unat (vec_len three_pushed) = Inr 3
   \<and> vec_at three_pushed 0 = Inr (Some 7)
   \<and> vec_at three_pushed 1 = Inr (Some 8)
   \<and> vec_at three_pushed 2 = Inr (Some 9)"
proof -
  have l: "length [Some (1 :: addr), Some 2, Some 3] = length [7 :: int, 8, 9]" by simp
  from pushes_read_back [OF l three_pushes]
  have n: "map_result unat (vec_len three_pushed) = Inr (length [7 :: int, 8, 9])"
    and at: "\<And>i. i < length [7 :: int, 8, 9] \<Longrightarrow> vec_at three_pushed i = Inr (Some ([7, 8, 9] ! i))"
    by blast+
  from at [of 0] at [of 1] at [of 2] n three_pushes show ?thesis
    by simp
qed

text \<open>
  Claim C6. The growth step shared by the appends gives capacity 1 on the first
  allocation, \<open>cap * 2\<close> when it reallocates a full array, and leaves the capacity alone
  when there is room; for a \<open>vec_push\<close> that returned, the product is exact. So after
  \<open>N \<ge> 1\<close> pushes from the empty vector the capacity is the least power of two that is
  at least \<open>N\<close>: the sequence 1, 2, 4, 8, ...
\<close>

theorem append_capacity_doubles:
  fixes s s' t t' t'' u u' start final :: "('w::len, 'a) state"
  shows "(handle s = None \<and> vec__grow_or_fail esz fail_block (Some p) s = Inr s'
            \<longrightarrow> vec_cap s' = Inr 1)
    \<and> (handle t = Some a \<and> heap t a = Some b \<and> len b = cap b
          \<and> vec__grow_or_fail esz fail_block (Some q) t = Inr t'
            \<longrightarrow> vec_cap t' = Inr (cap b * 2))
    \<and> (handle t = Some a \<and> heap t a = Some b \<and> len b = cap b
          \<and> vec_push esz v alloc t = Inr t''
            \<longrightarrow> vec_cap t'' = Inr (cap b * 2) \<and> unat (cap b * 2) = 2 * unat (cap b))
    \<and> (handle u = Some a' \<and> heap u a' = Some b' \<and> len b' < cap b'
          \<and> vec__grow_or_fail esz fail_block alloc' u = Inr u'
            \<longrightarrow> vec_cap u' = Inr (cap b'))
    \<and> (length allocs = length vs \<and> vs \<noteq> []
          \<and> run esz (map2 VEC_PUSH vs allocs) (vec_init start) = Inr final
            \<longrightarrow> (\<exists>k. map_result unat (vec_cap final) = Inr (2 ^ k)
                  \<and> length vs \<le> 2 ^ k \<and> 2 ^ k < 2 * length vs))"
proof -
  have first: "vec_cap s' = Inr 1"
    if "handle s = None \<and> vec__grow_or_fail esz fail_block (Some p) s = Inr s'"
    using that by (auto simp: grow_null vec_cap_eq split: if_splits)
  have full: "vec_cap t' = Inr (cap b * 2)"
    if h: "handle t = Some a \<and> heap t a = Some b \<and> len b = cap b
      \<and> vec__grow_or_fail esz fail_block (Some q) t = Inr t'"
  proof -
    from h have "\<not> len b < cap b" by simp
    with h show ?thesis
      by (auto simp: grow_full vec_cap_eq split: if_splits)
  qed
  have exact: "vec_cap t'' = Inr (cap b * 2) \<and> unat (cap b * 2) = 2 * unat (cap b)"
    if h: "handle t = Some a \<and> heap t a = Some b \<and> len b = cap b
      \<and> vec_push esz v alloc t = Inr t''"
  proof -
    from h have live: "handle t = Some a" "heap t a = Some b" and full: "\<not> len b < cap b"
      and push: "vec_push esz v alloc t = Inr t''"
      by simp_all
    let ?bytes = "sizeof_vec__header_t + esz * (cap b * 2) :: 'w word"
    from push_full [OF live full push] obtain r where
      fits: "\<not> ?bytes < sizeof_vec__header_t"
      and idx: "unat (len b) < slots_in esz ?bytes"
      and t'': "t'' = t\<lparr>handle := Some r,
            heap := ((heap t)(a := None))(r \<mapsto>
              \<lparr>len = len b + 1, cap = cap b * 2,
               slots = (resized esz ?bytes (slots b))[unat (len b) := Some v]\<rparr>)\<rparr>"
      by blast
    from idx slots_in_le_cap [OF fits] h have "unat (cap b) < unat (cap b * 2)"
      by simp
    then have "unat (cap b * 2) = 2 * unat (cap b)"
      by (rule double_no_wrap)
    moreover from t'' have "vec_cap t'' = Inr (cap b * 2)"
      by (simp add: vec_cap_eq)
    ultimately show ?thesis by simp
  qed
  have room: "vec_cap u' = Inr (cap b')"
    if "handle u = Some a' \<and> heap u a' = Some b' \<and> len b' < cap b'
      \<and> vec__grow_or_fail esz fail_block alloc' u = Inr u'"
    using that by (auto simp: grow_room vec_cap_eq)
  have sequence: "\<exists>k. map_result unat (vec_cap final) = Inr (2 ^ k)
      \<and> length vs \<le> 2 ^ k \<and> 2 ^ k < 2 * length vs"
    if h: "length allocs = length vs \<and> vs \<noteq> []
      \<and> run esz (map2 VEC_PUSH vs allocs) (vec_init start) = Inr final"
  proof -
    from h have "pushed final vs"
      using pushed_run [OF pushed_init, of allocs vs esz start final] by simp
    with h obtain a b k where "handle final = Some a" "heap final a = Some b"
      "unat (cap b) = 2 ^ k" "length vs \<le> 2 ^ k" "2 ^ k < 2 * length vs"
      by (auto simp: pushed_def)
    then show ?thesis
      by (auto simp: map_result_def vec_cap_live)
  qed
  from first full exact room sequence show ?thesis by blast
qed

theorem append_capacity_doubles_witness:
  "vec__grow_or_fail 4 (VEC_PANIC ''vec_push out of memory'') (Some 1) fresh_vec = Inr one_grown
   \<and> vec_cap one_grown = Inr 1
   \<and> vec__grow_or_fail 4 (VEC_PANIC ''vec_push out of memory'') (Some 3) two_pushed
      = Inr three_grown
   \<and> vec_cap three_grown = Inr (2 * 2)
   \<and> vec_push 4 9 (Some 3) two_pushed = Inr three_pushed
   \<and> vec_cap three_pushed = Inr (2 * 2)
   \<and> unat (2 * 2 :: 64 word) = 2 * unat (2 :: 64 word)
   \<and> vec__grow_or_fail 4 (VEC_PANIC ''vec_push out of memory'') None three_pushed
      = Inr four_grown
   \<and> vec_cap four_grown = Inr 4
   \<and> run 4 (map2 VEC_PUSH [7, 8, 9] [Some 1, Some 2, Some 3]) (vec_init fresh_vec)
      = Inr three_pushed
   \<and> (\<exists>k. map_result unat (vec_cap three_pushed) = Inr (2 ^ k)
          \<and> length [7 :: int, 8, 9] \<le> 2 ^ k \<and> 2 ^ k < 2 * length [7 :: int, 8, 9])"
proof -
  let ?F = "VEC_PANIC ''vec_push out of memory'' :: (64, int) state \<Rightarrow> error + (64, int) state"
  let ?two = "\<lparr>len = 2, cap = 2, slots = [Some 7, Some 8]\<rparr> :: (64, int) allocation"
  let ?three = "\<lparr>len = 3, cap = 4, slots = [Some 7, Some 8, Some 9, None]\<rparr> :: (64, int) allocation"
  have first: "handle fresh_vec = None \<and> vec__grow_or_fail 4 ?F (Some 1) fresh_vec = Inr one_grown"
    by (simp add: fresh_vec_def one_grown_def grow_null sizeof_vec__header_t_def resized_def
        slots_in_def)
  have full: "handle two_pushed = Some 2 \<and> heap two_pushed 2 = Some ?two \<and> len ?two = cap ?two
      \<and> vec__grow_or_fail 4 ?F (Some 3) two_pushed = Inr three_grown"
    by (simp add: two_pushed_def three_grown_def grow_full sizeof_vec__header_t_def resized_def
        slots_in_def replicate_numeral)
  have push: "handle two_pushed = Some 2 \<and> heap two_pushed 2 = Some ?two \<and> len ?two = cap ?two
      \<and> vec_push 4 9 (Some 3) two_pushed = Inr three_pushed"
    by (simp add: two_pushed_def three_pushed_def vec_push_def grow_full write_last_live
        sizeof_vec__header_t_def resized_def slots_in_def replicate_numeral)
  have room: "handle three_pushed = Some 3 \<and> heap three_pushed 3 = Some ?three
      \<and> len ?three < cap ?three
      \<and> vec__grow_or_fail 4 ?F None three_pushed = Inr four_grown"
    by (simp add: three_pushed_def four_grown_def grow_room)
  have seq: "length [Some (1 :: addr), Some 2, Some 3] = length [7 :: int, 8, 9]
      \<and> [7 :: int, 8, 9] \<noteq> []
      \<and> run 4 (map2 VEC_PUSH [7, 8, 9] [Some 1, Some 2, Some 3]) (vec_init fresh_vec)
        = Inr three_pushed"
    using three_pushes by simp
  note inst = append_capacity_doubles [where s = fresh_vec and s' = one_grown and t = two_pushed
      and t' = three_grown and t'' = three_pushed and u = three_pushed and u' = four_grown
      and esz = 4 and fail_block = ?F and p = 1 and q = 3 and a = 2 and v = 9
      and alloc = "Some 3" and alloc' = None and b = ?two and a' = 3 and b' = ?three
      and allocs = "[Some 1, Some 2, Some 3]" and vs = "[7, 8, 9]" and start = fresh_vec
      and final = three_pushed]
  from inst first have c1: "vec_cap one_grown = Inr 1" by blast
  from inst full have c2: "vec_cap three_grown = Inr (cap ?two * 2)" by blast
  from inst push have c3: "vec_cap three_pushed = Inr (cap ?two * 2)
      \<and> unat (cap ?two * 2) = 2 * unat (cap ?two)" by blast
  from inst room have c4: "vec_cap four_grown = Inr (cap ?three)" by blast
  from inst seq have c5: "\<exists>k. map_result unat (vec_cap three_pushed) = Inr (2 ^ k)
      \<and> length [7 :: int, 8, 9] \<le> 2 ^ k \<and> 2 ^ k < 2 * length [7 :: int, 8, 9]" by blast
  from c1 c2 c3 c4 c5 first full push room seq show ?thesis
    by simp
qed

section \<open>Reservation\<close>

text \<open>
  Claim C7. A \<open>vec_reserve(vec, K)\<close> that returns changes nothing when \<open>K\<close> is 0 or at
  most the current capacity (0 for the \<open>NULL\<close> handle); otherwise it allocates, the
  capacity becomes exactly \<open>K\<close> and the length stays what it was, which is 0 for the
  \<open>NULL\<close> handle. The capacity never shrinks.
\<close>

theorem vec_reserve_exact:
  fixes s s' :: "('w::len, 'a) state"
  assumes "vec_reserve esz capacity alloc s = Inr s'"
    and "vec_cap s = Inr c" and "vec_len s = Inr l"
  shows "(capacity = 0 \<longrightarrow> s' = s)
    \<and> (capacity \<le> c \<longrightarrow> s' = s)
    \<and> (c < capacity \<longrightarrow>
          vec_cap s' = Inr capacity \<and> vec_len s' = Inr l \<and> alloc \<noteq> None \<and> handle s' = alloc)
    \<and> (handle s = None \<longrightarrow> l = 0 \<and> c = 0)"
proof (cases "handle s")
  case None
  with assms(2,3) have "c = 0" "l = 0"
    by (simp_all add: vec_cap_null vec_len_null)
  with assms(1) None show ?thesis
    by (auto simp: vec_reserve_def reserve_null VEC_PANIC_def vec_cap_eq vec_len_eq
        split: if_splits option.splits)
next
  case (Some a)
  with assms(2) obtain b where b: "heap s a = Some b" and c: "c = cap b"
    by (auto simp: vec_cap_eq split: option.splits)
  with assms(3) Some have l: "l = len b"
    by (simp add: vec_len_eq)
  from assms(1) show ?thesis
    by (auto simp: vec_reserve_def reserve_live [OF Some b] VEC_PANIC_def vec_cap_eq vec_len_eq
        c l Some split: if_splits option.splits)
qed

theorem vec_reserve_exact_witness:
  "vec_reserve 4 8 (Some 1) fresh_vec = Inr reserved_8
   \<and> vec_cap reserved_8 = Inr 8 \<and> vec_len reserved_8 = Inr 0
   \<and> vec_reserve 4 0 (Some 1) fresh_vec = Inr fresh_vec
   \<and> vec_reserve 4 3 (Some 2) example_vec = Inr example_vec
   \<and> vec_reserve 4 9 (Some 2) example_vec = Inr regrown_9
   \<and> vec_cap regrown_9 = Inr 9 \<and> vec_len regrown_9 = Inr 4"
proof -
  have fresh: "vec_cap fresh_vec = Inr 0" "vec_len fresh_vec = Inr 0"
    by (simp_all add: fresh_vec_def vec_cap_eq vec_len_eq)
  have example: "vec_cap example_vec = Inr 4" "vec_len example_vec = Inr 4"
    by (simp_all add: example_vec_def example_block_def vec_cap_eq vec_len_eq)
  have r8: "vec_reserve 4 8 (Some 1) fresh_vec = Inr reserved_8"
    by (simp add: fresh_vec_def reserved_8_def vec_reserve_def reserve_null
        sizeof_vec__header_t_def resized_def slots_in_def)
  have r0: "vec_reserve 4 0 (Some 1) fresh_vec = Inr fresh_vec"
    by (simp add: fresh_vec_def vec_reserve_def reserve_null)
  have r3: "vec_reserve 4 3 (Some 2) example_vec = Inr example_vec"
    by (simp add: example_vec_def example_block_def vec_reserve_def reserve_live)
  have r9: "vec_reserve 4 9 (Some 2) example_vec = Inr regrown_9"
    by (simp add: example_vec_def example_block_def regrown_9_def vec_reserve_def reserve_live
        sizeof_vec__header_t_def resized_def slots_in_def)
  from vec_reserve_exact [OF r8 fresh] have "vec_cap reserved_8 = Inr 8 \<and> vec_len reserved_8 = Inr 0"
    by simp
  moreover from vec_reserve_exact [OF r9 example]
  have "vec_cap regrown_9 = Inr 9 \<and> vec_len regrown_9 = Inr 4"
    by simp
  moreover note vec_reserve_exact [OF r0 fresh] vec_reserve_exact [OF r3 example]
  ultimately show ?thesis using r8 r0 r3 r9 by simp
qed

section \<open>Removal by index\<close>

text \<open>
  Claim C8. For a live vector whose elements lie inside the allocation and an index below
  the length, \<open>vec_remove_swap_at\<close> returns, decrements the length and copies the former
  last element into the removed slot (onto itself when the index was the last); the
  elements are then the old ones with the last one moved into the gap. The witness is
  \<open>[10,20,30,40]\<close> with index 1, which gives \<open>[10,40,30]\<close> and length 3.
\<close>

theorem vec_remove_swap_at_moves_last:
  fixes s :: "('w::len, 'a) state"
  assumes "handle s = Some a" and "heap s a = Some b"
    and "index < len b" and "unat (len b) \<le> length (slots b)"
  shows "\<exists>s'. vec_remove_swap_at index s = Inr s'
    \<and> s' = s\<lparr>heap := (heap s)(a \<mapsto>
               b\<lparr>len := len b - 1, slots := (slots b)[unat index := slots b ! (unat (len b) - 1)]\<rparr>)\<rparr>
    \<and> vec_len s' = Inr (len b - 1)
    \<and> elements s' = butlast ((elements s)[unat index := last (elements s)])"
proof -
  let ?n = "unat (len b)"
  let ?xs = "slots b"
  from assms(3) have pred: "unat (len b - 1) = ?n - 1" and i: "unat index < ?n"
    by (simp_all add: unat_pred_less word_less_nat_alt)
  let ?s' = "s\<lparr>heap := (heap s)(a \<mapsto> b\<lparr>len := len b - 1, slots := ?xs[unat index := ?xs ! (?n - 1)]\<rparr>)\<rparr>"
  from i assms(4) have run: "vec_remove_swap_at index s = Inr ?s'"
    by (simp add: vec_remove_swap_at_def assert_index [OF assms(1,2)] assms(3)
        header_at_live [OF assms(1,2)] Let_def load_def store_def pred)
  have len: "vec_len ?s' = Inr (len b - 1)"
    by (simp add: vec_len_eq assms(1))
  have nonempty: "take ?n ?xs \<noteq> []" using i assms(4) by auto
  have "last (take ?n ?xs) = take ?n ?xs ! (length (take ?n ?xs) - 1)"
    using nonempty by (rule last_conv_nth)
  also have "\<dots> = ?xs ! (?n - 1)"
    using i assms(4) by (simp add: min_def)
  finally have "last (take ?n ?xs) = ?xs ! (?n - 1)" .
  then have "butlast ((take ?n ?xs)[unat index := last (take ?n ?xs)])
      = take (?n - 1) (?xs[unat index := ?xs ! (?n - 1)])"
    using i assms(4) by (simp add: butlast_conv_take take_update_swap min_absorb2)
  then have "elements ?s' = butlast ((elements s)[unat index := last (elements s)])"
    by (simp add: elements_eq assms(1,2) pred)
  with run len show ?thesis by blast
qed

theorem vec_remove_swap_at_moves_last_witness:
  "map_result elements (vec_remove_swap_at 1 example_vec) = Inr [Some 10, Some 40, Some 30]
   \<and> map_result vec_len (vec_remove_swap_at 1 example_vec) = Inr (Inr 3)"
proof -
  have h: "handle example_vec = Some 1" "heap example_vec 1 = Some example_block"
    "(1 :: 64 word) < len example_block"
    "unat (len example_block) \<le> length (slots example_block)"
    by (simp_all add: example_vec_def example_block_def)
  from vec_remove_swap_at_moves_last [OF h] obtain s' where
    "vec_remove_swap_at 1 example_vec = Inr s'" "vec_len s' = Inr (len example_block - 1)"
    "elements s' = butlast ((elements example_vec)[unat (1 :: 64 word) := last (elements example_vec)])"
    by auto
  then show ?thesis
    by (simp add: map_result_def elements_eq example_vec_def example_block_def)
qed

text \<open>
  Claim C9. For a live vector whose elements lie inside the allocation and an index below
  the length, \<open>vec_remove_shift_at\<close> returns, decrements the length and moves every later
  element one slot down: the elements are then the old ones without the removed one, in
  their old order. The witness is \<open>[10,20,30,40]\<close> with index 1, which gives
  \<open>[10,30,40]\<close> and length 3.
\<close>

theorem vec_remove_shift_at_keeps_order:
  fixes s :: "('w::len, 'a) state"
  assumes "handle s = Some a" and "heap s a = Some b"
    and "index < len b" and "unat (len b) \<le> length (slots b)"
  shows "\<exists>s'. vec_remove_shift_at index s = Inr s'
    \<and> vec_len s' = Inr (len b - 1)
    \<and> vec_cap s' = Inr (cap b)
    \<and> elements s' = take (unat index) (elements s) @ drop (Suc (unat index)) (elements s)"
proof -
  let ?n = "unat (len b)"
  let ?i = "unat index"
  let ?xs = "slots b"
  let ?b1 = "b\<lparr>len := len b - 1\<rparr>"
  from assms(3) have pred: "unat (len b - 1) = ?n - 1" and i: "?i < ?n"
    by (simp_all add: unat_pred_less word_less_nat_alt)
  with assms(4) have "unat (len ?b1) < length (slots ?b1)" by simp
  from shift_loop_result [OF this, of index] obtain b' where
    loop: "shift_loop index ?b1 = Inr b'" and hdr: "len b' = len b - 1" "cap b' = cap b"
    and length: "length (slots b') = length ?xs"
    and nth: "\<forall>j < length ?xs. slots b' ! j = (if ?i \<le> j \<and> j < ?n - 1 then ?xs ! Suc j else ?xs ! j)"
    by (auto simp: pred)
  let ?s' = "s\<lparr>heap := (heap s)(a \<mapsto> b')\<rparr>"
  have run: "vec_remove_shift_at index s = Inr ?s'"
    by (simp add: vec_remove_shift_at_def assert_index [OF assms(1,2)] assms(3)
        header_at_live [OF assms(1,2)] loop)
  have "take (?n - 1) (slots b') = take ?i (take ?n ?xs) @ drop (Suc ?i) (take ?n ?xs)"
  proof (rule nth_equalityI)
    have "length (take (?n - 1) (slots b')) = ?n - 1"
      using assms(4) length by simp
    moreover have "length (take ?i (take ?n ?xs) @ drop (Suc ?i) (take ?n ?xs)) = ?i + (?n - Suc ?i)"
      using i assms(4) by simp
    ultimately show "length (take (?n - 1) (slots b'))
        = length (take ?i (take ?n ?xs) @ drop (Suc ?i) (take ?n ?xs))"
      using i by linarith
  next
    fix j assume "j < length (take (?n - 1) (slots b'))"
    then have j: "j < ?n - 1" by simp
    with assms(4) have "j < length ?xs" by simp
    with nth have "slots b' ! j = (if ?i \<le> j \<and> j < ?n - 1 then ?xs ! Suc j else ?xs ! j)"
      by blast
    with j i assms(4) show "take (?n - 1) (slots b') ! j
        = (take ?i (take ?n ?xs) @ drop (Suc ?i) (take ?n ?xs)) ! j"
      by (auto simp: nth_append min_def)
  qed
  then have "elements ?s' = take ?i (elements s) @ drop (Suc ?i) (elements s)"
    by (simp add: elements_eq assms(1,2) hdr pred)
  moreover have "vec_len ?s' = Inr (len b - 1)" "vec_cap ?s' = Inr (cap b)"
    by (simp_all add: vec_len_eq vec_cap_eq assms(1) hdr)
  ultimately show ?thesis using run by blast
qed

theorem vec_remove_shift_at_keeps_order_witness:
  "map_result elements (vec_remove_shift_at 1 example_vec) = Inr [Some 10, Some 30, Some 40]
   \<and> map_result vec_len (vec_remove_shift_at 1 example_vec) = Inr (Inr 3)"
proof -
  have h: "handle example_vec = Some 1" "heap example_vec 1 = Some example_block"
    "(1 :: 64 word) < len example_block"
    "unat (len example_block) \<le> length (slots example_block)"
    by (simp_all add: example_vec_def example_block_def)
  from vec_remove_shift_at_keeps_order [OF h] obtain s' where
    "vec_remove_shift_at 1 example_vec = Inr s'" "vec_len s' = Inr (len example_block - 1)"
    "elements s' = take (unat (1 :: 64 word)) (elements example_vec)
        @ drop (Suc (unat (1 :: 64 word))) (elements example_vec)"
    by auto
  then show ?thesis
    by (simp add: map_result_def elements_eq example_vec_def example_block_def)
qed

section \<open>Overflow of the doubling\<close>

text \<open>
  Claim C10. When the growth step of an append (\<open>vec_push\<close> and \<open>vec_emplace\<close> both expand
  \<open>vec__grow_or_fail\<close>) finds the array full and the reallocation succeeds, the new
  capacity is \<open>cap * 2\<close> in \<open>size_t\<close> arithmetic, that is \<open>2 * cap mod 2 ^ w\<close>; nothing
  guards the product, and for \<open>cap \<ge> 2 ^ (w - 1)\<close> it is smaller than the current length.
\<close>

theorem grow_doubles_modulo:
  fixes s :: "('w::len, 'a) state"
  assumes "handle s = Some a" and "heap s a = Some b" and "len b = cap b"
    and "vec__grow_or_fail esz fail_block (Some p) s = Inr s'"
  shows "vec_cap s' = Inr (cap b * 2)
    \<and> unat (cap b * 2) = (2 * unat (cap b)) mod 2 ^ LENGTH('w)
    \<and> (2 ^ (LENGTH('w) - 1) \<le> unat (cap b) \<longrightarrow> cap b * 2 < len b)"
proof -
  from assms(3) have full: "\<not> len b < cap b" by simp
  from assms(4) have "vec_cap s' = Inr (cap b * 2)"
    unfolding grow_full [OF assms(1,2) full]
    by (auto simp: vec_cap_live split: if_splits)
  moreover have "2 ^ (LENGTH('w) - 1) \<le> unat (cap b) \<longrightarrow> cap b * 2 < len b"
    using double_wraps_less [of "cap b"] assms(3) by simp
  ultimately show ?thesis by (simp only: unat_double simp_thms)
qed

theorem grow_doubles_modulo_witness:
  "vec__grow_or_fail 1 (VEC_PANIC ''vec_emplace out of memory'') (Some 2)
      \<lparr>handle = Some 1, heap = [1 \<mapsto> full_at_half_range], errno = 0\<rparr>
     = Inr \<lparr>handle = Some 2,
           heap = [1 \<mapsto> full_at_half_range]
                    (1 := None, 2 \<mapsto> \<lparr>len = 2 ^ 63 + 1, cap = 2 ^ 63 * 2, slots = []\<rparr>),
           errno = 0\<rparr>
   \<and> vec_cap \<lparr>handle = Some 2,
           heap = [1 \<mapsto> full_at_half_range]
                    (1 := None, 2 \<mapsto> \<lparr>len = 2 ^ 63 + 1, cap = 2 ^ 63 * 2, slots = []\<rparr>),
           errno = 0\<rparr> = Inr (0 :: 64 word)
   \<and> unat (cap full_at_half_range * 2) = 0
   \<and> cap full_at_half_range * 2 < len full_at_half_range
   \<and> call 1 (VEC_EMPLACE (Some 2))
        \<lparr>handle = Some 1, heap = [1 \<mapsto> full_at_half_range], errno = 0\<rparr>
     = Inr \<lparr>handle = Some 2,
           heap = [1 \<mapsto> full_at_half_range]
                    (1 := None, 2 \<mapsto> \<lparr>len = 2 ^ 63 + 1, cap = 2 ^ 63 * 2, slots = []\<rparr>),
           errno = 0\<rparr>
   \<and> call 1 (VEC_PUSH 0 (Some 2))
        \<lparr>handle = Some 1, heap = [1 \<mapsto> full_at_half_range], errno = 0\<rparr>
     = Inl (Undefined Out_of_bounds)"
proof -
  let ?s = "\<lparr>handle = Some 1, heap = [1 \<mapsto> full_at_half_range], errno = 0\<rparr>"
  let ?s' = "\<lparr>handle = Some 2,
      heap = [1 \<mapsto> full_at_half_range]
               (1 := None, 2 \<mapsto> \<lparr>len = 2 ^ 63 + 1, cap = 2 ^ 63 * 2, slots = []\<rparr>),
      errno = 0\<rparr>"
  have h: "handle ?s = Some 1" "heap ?s 1 = Some full_at_half_range"
    "len full_at_half_range = cap full_at_half_range"
    by (simp_all add: full_at_half_range_def)
  have full: "\<not> len full_at_half_range < cap full_at_half_range"
    by (simp add: full_at_half_range_def)
  have g: "vec__grow_or_fail 1 fail_block (Some 2) ?s = Inr ?s'" for fail_block
    unfolding grow_full [OF h(1,2) full]
    by (simp add: full_at_half_range_def sizeof_vec__header_t_def resized_def slots_in_def)
  have big: "2 ^ (LENGTH(64) - 1) \<le> unat (cap full_at_half_range)"
    by (simp add: full_at_half_range_def)
  have emplace: "call 1 (VEC_EMPLACE (Some 2)) ?s = Inr ?s'"
    unfolding call.simps vec_emplace_def g
    by (simp add: map_result_def last_slot_def header_at_def vec__get_header_def)
  have push: "call 1 (VEC_PUSH 0 (Some 2)) ?s = Inl (Undefined Out_of_bounds)"
    unfolding call.simps vec_push_def g
    by (simp add: write_last_def header_at_def vec__get_header_def store_def)
  from grow_doubles_modulo [OF h g] big g emplace push show ?thesis
    by (simp add: full_at_half_range_def)
qed

end
